theory Spec2Isabelle
  imports Main
begin

section \<open>Strings\<close>

text \<open>
  A JavaScript string is modelled as a \<^typ>\<open>string\<close>: one \<^typ>\<open>char\<close> per code unit,
  for code units below 256. The operations below are the string methods the two blocks
  call: \<^verbatim>\<open>startsWith\<close> with the rest of the string, \<^verbatim>\<open>includes\<close>,
  \<^verbatim>\<open>split\<close> and \<^verbatim>\<open>pop\<close>.
\<close>

fun strip_prefix :: "string \<Rightarrow> string \<Rightarrow> string option" where
  "strip_prefix [] s = Some s"
| "strip_prefix (p # ps) [] = None"
| "strip_prefix (p # ps) (c # cs) = (if p = c then strip_prefix ps cs else None)"

fun includes_str :: "string \<Rightarrow> string \<Rightarrow> bool" where
  "includes_str [] t = (t = [])"
| "includes_str (c # cs) t = (strip_prefix t (c # cs) \<noteq> None \<or> includes_str cs t)"

text \<open>
  \<^verbatim>\<open>s.split(sep)\<close> for a separator of one code unit; the result is never empty. The
  same splitting serves the byte sequences of the query parser.
\<close>

fun split_on :: "('a \<Rightarrow> bool) \<Rightarrow> 'a list \<Rightarrow> 'a list list" where
  "split_on sep [] = [[]]"
| "split_on sep (c # cs) =
     (if sep c then [] # split_on sep cs
      else (case split_on sep cs of [] \<Rightarrow> [[c]] | x # xs \<Rightarrow> (c # x) # xs))"

definition split_str :: "char \<Rightarrow> string \<Rightarrow> string list" where
  "split_str sep s = split_on (\<lambda>c. c = sep) s"

text \<open>\<^verbatim>\<open>xs.pop()\<close> as an expression: the last element, \<^verbatim>\<open>undefined\<close> on the empty array.\<close>

definition pop :: "'a list \<Rightarrow> 'a option" where
  "pop xs = (if xs = [] then None else Some (last xs))"

section \<open>The YouTube id pattern of the carousel\<close>

text \<open>
  \<^verbatim>\<open>/(?:youtu\.be\/|youtube\.com(?:\/embed\/|\/v\/|\/watch\?v=|\/watch\?.+&v=))([^"&?\/\s]{11})/\<close>

  The matcher follows the backtracking order of the pattern: start positions from left to
  right, alternatives in the order written, and the greedy \<^verbatim>\<open>.+\<close> from the longest
  extent down. \<^verbatim>\<open>\s\<close> and the line terminators that \<^verbatim>\<open>.\<close> refuses are the ones
  below 256.
\<close>

definition js_space :: "char \<Rightarrow> bool" where
  "js_space c = (c \<in> {CHR 0x09, CHR 0x0A, CHR 0x0B, CHR 0x0C, CHR 0x0D, CHR 0x20, CHR 0xA0})"

definition line_terminator :: "char \<Rightarrow> bool" where
  "line_terminator c = (c = CHR 0x0A \<or> c = CHR 0x0D)"

definition id_char :: "char \<Rightarrow> bool" where
  "id_char c = (c \<noteq> CHR 0x22 \<and> c \<noteq> CHR ''&'' \<and> c \<noteq> CHR ''?'' \<and> c \<noteq> CHR ''/'' \<and> \<not> js_space c)"

text \<open>The capture group \<^verbatim>\<open>([^"&?\/\s]{11})\<close> at the start of the string.\<close>

definition take_id :: "string \<Rightarrow> string option" where
  "take_id s = (if 11 \<le> length s \<and> list_all id_char (take 11 s) then Some (take 11 s) else None)"

text \<open>
  \<^verbatim>\<open>.*&v=\<close> followed by the group: consuming one more code unit is tried before
  matching \<^verbatim>\<open>&v=\<close> here.
\<close>

fun dot_star_v :: "string \<Rightarrow> string option" where
  "dot_star_v [] = None"
| "dot_star_v (c # cs) =
     (case (if line_terminator c then None else dot_star_v cs) of
        Some v \<Rightarrow> Some v
      | None \<Rightarrow> (case strip_prefix ''&v='' (c # cs) of
                   Some r \<Rightarrow> take_id r
                 | None \<Rightarrow> None))"

text \<open>\<^verbatim>\<open>.+&v=\<close> followed by the group.\<close>

definition dot_plus_v :: "string \<Rightarrow> string option" where
  "dot_plus_v s = (case s of [] \<Rightarrow> None | c # cs \<Rightarrow> if line_terminator c then None else dot_star_v cs)"

text \<open>The four alternatives after \<^verbatim>\<open>youtube\.com\<close>, in order.\<close>

definition after_youtube_com :: "string \<Rightarrow> string option" where
  "after_youtube_com s =
     (case Option.bind (strip_prefix ''/embed/'' s) take_id of
        Some v \<Rightarrow> Some v
      | None \<Rightarrow>
     (case Option.bind (strip_prefix ''/v/'' s) take_id of
        Some v \<Rightarrow> Some v
      | None \<Rightarrow>
     (case Option.bind (strip_prefix ''/watch?v='' s) take_id of
        Some v \<Rightarrow> Some v
      | None \<Rightarrow> Option.bind (strip_prefix ''/watch?'' s) dot_plus_v)))"

text \<open>The whole pattern anchored at the start of the string.\<close>

definition match_here :: "string \<Rightarrow> string option" where
  "match_here s =
     (case Option.bind (strip_prefix ''youtu.be/'' s) take_id of
        Some v \<Rightarrow> Some v
      | None \<Rightarrow> Option.bind (strip_prefix ''youtube.com'' s) after_youtube_com)"

text \<open>\<^verbatim>\<open>url.match(pattern)?.[1]\<close>: the group of the leftmost match.\<close>

fun video_id_match :: "string \<Rightarrow> string option" where
  "video_id_match [] = match_here []"
| "video_id_match (c # cs) =
     (case match_here (c # cs) of Some v \<Rightarrow> Some v | None \<Rightarrow> video_id_match cs)"

section \<open>The platform's URL parser\<close>

text \<open>
  \<^verbatim>\<open>new URL(s)\<close> is a browser primitive. It is modelled after the URL standard for the
  URLs the two blocks hand it: absolute \<^verbatim>\<open>http\<close> and \<^verbatim>\<open>https\<close> URLs with a
  lower-case scheme whose authority is a plain host name (lower-case letters, digits,
  dots and hyphens, the last label starting with a letter, no \<^verbatim>\<open>xn--\<close> label, no
  credentials, no port). On every other string the model answers \<open>None\<close>, which the
  callers treat as the \<^verbatim>\<open>TypeError\<close> of an unparseable URL.
\<close>

definition c0_or_space :: "char \<Rightarrow> bool" where
  "c0_or_space c = ((of_char c :: nat) \<le> 0x20)"

definition tab_or_newline :: "char \<Rightarrow> bool" where
  "tab_or_newline c = (c = CHR 0x09 \<or> c = CHR 0x0A \<or> c = CHR 0x0D)"

definition url_input :: "string \<Rightarrow> string" where
  "url_input s =
     filter (\<lambda>c. \<not> tab_or_newline c) (rev (dropWhile c0_or_space (rev (dropWhile c0_or_space s))))"

definition hex_digit :: "nat \<Rightarrow> char" where
  "hex_digit n = ''0123456789ABCDEF'' ! n"

definition pct_byte :: "nat \<Rightarrow> string" where
  "pct_byte n = [CHR ''%'', hex_digit (n div 16), hex_digit (n mod 16)]"

text \<open>The UTF-8 bytes of a code point.\<close>

definition utf8_bytes :: "nat \<Rightarrow> nat list" where
  "utf8_bytes n =
     (if n < 0x80 then [n]
      else if n < 0x800 then [0xC0 + n div 64, 0x80 + n mod 64]
      else if n < 0x10000 then [0xE0 + n div 4096, 0x80 + (n div 64) mod 64, 0x80 + n mod 64]
      else [0xF0 + n div 262144, 0x80 + (n div 4096) mod 64, 0x80 + (n div 64) mod 64,
            0x80 + n mod 64])"

definition utf8_pct :: "char \<Rightarrow> string" where
  "utf8_pct c = concat (map pct_byte (utf8_bytes (of_char c)))"

definition c0_control_set :: "char \<Rightarrow> bool" where
  "c0_control_set c = ((of_char c :: nat) < 0x20 \<or> 0x7E < (of_char c :: nat))"

definition query_set :: "char \<Rightarrow> bool" where
  "query_set c =
     (c0_control_set c \<or> c = CHR 0x20 \<or> c = CHR 0x22 \<or> c = CHR ''#'' \<or> c = CHR ''<'' \<or> c = CHR ''>'')"

definition special_query_set :: "char \<Rightarrow> bool" where
  "special_query_set c = (query_set c \<or> c = CHR 0x27)"

definition path_set :: "char \<Rightarrow> bool" where
  "path_set c =
     (query_set c \<or> c = CHR ''?'' \<or> c = CHR ''^'' \<or> c = CHR 0x60 \<or> c = CHR ''{'' \<or> c = CHR ''}'')"

definition pct_encode :: "(char \<Rightarrow> bool) \<Rightarrow> string \<Rightarrow> string" where
  "pct_encode enc s = concat (map (\<lambda>c. if enc c then utf8_pct c else [c]) s)"

definition is_slash :: "char \<Rightarrow> bool" where
  "is_slash c = (c = CHR ''/'' \<or> c = CHR 0x5C)"

definition authority_end :: "char \<Rightarrow> bool" where
  "authority_end c = (is_slash c \<or> c = CHR ''?'' \<or> c = CHR ''#'')"

definition host_char :: "char \<Rightarrow> bool" where
  "host_char c = (c \<in> set ''abcdefghijklmnopqrstuvwxyz0123456789.-'')"

definition plain_host :: "string \<Rightarrow> bool" where
  "plain_host h =
     (list_all host_char h \<and> \<not> includes_str h ''xn--'' \<and>
      (case last (split_str (CHR ''.'') h) of
         [] \<Rightarrow> False
       | c # cs \<Rightarrow> c \<in> set ''abcdefghijklmnopqrstuvwxyz''))"

text \<open>Scheme, host and the rest of the input after the authority.\<close>

definition url_split :: "string \<Rightarrow> (string \<times> string \<times> string) option" where
  "url_split inp =
     (let s = url_input inp in
      case (case strip_prefix ''https:'' s of
              Some r \<Rightarrow> Some (''https'', r)
            | None \<Rightarrow> map_option (Pair ''http'') (strip_prefix ''http:'' s)) of
        None \<Rightarrow> None
      | Some (scheme, r) \<Rightarrow>
          (let r' = dropWhile is_slash r;
               host = takeWhile (\<lambda>c. \<not> authority_end c) r';
               rest = dropWhile (\<lambda>c. \<not> authority_end c) r'
           in if plain_host host then Some (scheme, host, rest) else None))"

definition single_dot :: "string \<Rightarrow> bool" where
  "single_dot b = (b \<in> {''.'', ''%2e'', ''%2E''})"

definition double_dot :: "string \<Rightarrow> bool" where
  "double_dot b =
     (b \<in> {''..'', ''.%2e'', ''.%2E'', ''%2e.'', ''%2E.'', ''%2e%2e'', ''%2E%2e'', ''%2e%2E'', ''%2E%2E''})"

text \<open>
  The path state of the parser, one segment at a time: a double-dot segment shortens the
  path, a dot segment is dropped, and either of them at the end leaves an empty segment.
\<close>

fun path_segments :: "string list \<Rightarrow> string list \<Rightarrow> string list" where
  "path_segments stack [] = stack"
| "path_segments stack (seg # segs) =
     (let b = pct_encode path_set seg in
      if double_dot b then path_segments (butlast stack @ (if segs = [] then [[]] else [])) segs
      else if single_dot b then path_segments (stack @ (if segs = [] then [[]] else [])) segs
      else path_segments (stack @ [b]) segs)"

definition url_path :: "string \<Rightarrow> string" where
  "url_path rest =
     (let raw = takeWhile (\<lambda>c. c \<noteq> CHR ''?'' \<and> c \<noteq> CHR ''#'') rest;
          body = (case raw of [] \<Rightarrow> [] | c # cs \<Rightarrow> if is_slash c then cs else raw)
      in concat (map (\<lambda>seg. CHR ''/'' # seg) (path_segments [] (split_on is_slash body))))"

definition url_search :: "string \<Rightarrow> string" where
  "url_search rest =
     (case dropWhile (\<lambda>c. c \<noteq> CHR ''?'' \<and> c \<noteq> CHR ''#'') rest of
        [] \<Rightarrow> []
      | c # q \<Rightarrow>
          if c = CHR ''?''
          then (let query = pct_encode special_query_set (takeWhile (\<lambda>c. c \<noteq> CHR ''#'') q)
                in if query = [] then [] else CHR ''?'' # query)
          else [])"

record url =
  origin :: string
  pathname :: string
  search :: string

definition parse_url :: "string \<Rightarrow> url option" where
  "parse_url inp =
     map_option
       (\<lambda>(scheme, host, rest).
          \<lparr>origin = scheme @ ''://'' @ host, pathname = url_path rest, search = url_search rest\<rparr>)
       (url_split inp)"

text \<open>
  The serialisation of a URL: scheme, host and path, then the query and the fragment when
  the input has one (also when it is empty). An element's \<^verbatim>\<open>src\<close> property reads this
  back from the string that was assigned to it.
\<close>

definition fragment_set :: "char \<Rightarrow> bool" where
  "fragment_set c =
     (c0_control_set c \<or> c = CHR 0x20 \<or> c = CHR 0x22 \<or> c = CHR ''<'' \<or> c = CHR ''>'' \<or> c = CHR 0x60)"

definition url_query :: "string \<Rightarrow> string" where
  "url_query rest =
     (case dropWhile (\<lambda>c. c \<noteq> CHR ''?'' \<and> c \<noteq> CHR ''#'') rest of
        [] \<Rightarrow> []
      | c # q \<Rightarrow>
          if c = CHR ''?''
          then CHR ''?'' # pct_encode special_query_set (takeWhile (\<lambda>c. c \<noteq> CHR ''#'') q)
          else [])"

definition url_fragment :: "string \<Rightarrow> string" where
  "url_fragment rest =
     (case dropWhile (\<lambda>c. c \<noteq> CHR ''#'') rest of
        [] \<Rightarrow> []
      | c # f \<Rightarrow> CHR ''#'' # pct_encode fragment_set f)"

definition url_href :: "string \<Rightarrow> string option" where
  "url_href inp =
     map_option
       (\<lambda>(scheme, host, rest).
          scheme @ ''://'' @ host @ url_path rest @ url_query rest @ url_fragment rest)
       (url_split inp)"

section \<open>Image carousel\<close>

subsection \<open>Embeds and previews\<close>

text \<open>
  What a slide holds: the picture element that the external helper
  \<^verbatim>\<open>createOptimizedPicture(src, alt, eager, breakpoints)\<close> returns (kept as its arguments),
  or the wrapper that \<^verbatim>\<open>createYouTubeEmbed\<close> builds around one iframe (kept as the
  iframe's \<^verbatim>\<open>src\<close>).
\<close>

datatype media = Picture string string "string list" | VideoWrapper string

datatype error = TypeError

text \<open>The template literal of the iframe's \<^verbatim>\<open>src\<close>.\<close>

definition embed_src :: "string \<Rightarrow> bool \<Rightarrow> string" where
  "embed_src videoId autoplay =
     ''https://www.youtube.com/embed/'' @ videoId @ ''?rel=0&enablejsapi=1'' @
     (if autoplay then ''&autoplay=1&mute=1'' else [])"

definition createYouTubeEmbed :: "string \<Rightarrow> bool \<Rightarrow> media option" where
  "createYouTubeEmbed u autoplay =
     (case video_id_match u of
        None \<Rightarrow> None
      | Some videoId \<Rightarrow> Some (VideoWrapper (embed_src videoId autoplay)))"

text \<open>
  A row of the authored block, as the elements the decoration looks for, in document
  order: anchors, images and anything else. An anchor carries two strings: its
  \<^verbatim>\<open>href\<close> attribute as authored, which the selector tests, and the value of its
  \<^verbatim>\<open>href\<close> property, the URL that the platform resolves and serialises from the
  attribute, which the code reads as \<^verbatim>\<open>link.href\<close>. An image carries the values of
  its \<^verbatim>\<open>src\<close> and \<^verbatim>\<open>alt\<close> properties.
\<close>

datatype node = Anchor string string | Img string string | Other

text \<open>
  \<^verbatim>\<open>img.src\<close> of the preview image: the serialisation of the URL assigned to it (the
  assigned string itself, had it not parsed).
\<close>

definition preview_src :: "string \<Rightarrow> string" where
  "preview_src videoId =
     (let assigned = ''https://img.youtube.com/vi/'' @ videoId @ ''/maxresdefault.jpg''
      in case url_href assigned of Some href \<Rightarrow> href | None \<Rightarrow> assigned)"

text \<open>The preview wrapper: the preview image, then the play button.\<close>

definition createYouTubePreview :: "string \<Rightarrow> node list option" where
  "createYouTubePreview u =
     (case video_id_match u of
        None \<Rightarrow> None
      | Some videoId \<Rightarrow> Some [Img (preview_src videoId) ''YouTube video preview'', Other])"

subsection \<open>State\<close>

record slide =
  active :: bool
  video_slide :: bool
  media :: "media option"

record indicator =
  ind_active :: bool
  ind_selected :: bool
  ind_target :: nat

record thumbnail =
  th_active :: bool
  th_selected :: bool
  th_target :: nat
  th_picture :: media

text \<open>
  The block after decoration: the slide elements, whether navigation (and the observer)
  exists, the indicator and thumbnail buttons with the slide index their click handler
  closes over, and \<^verbatim>\<open>dataset.currentSlide\<close> as \<^verbatim>\<open>parseInt\<close> reads it.
\<close>

record carousel =
  slides :: "slide list"
  navigation :: bool
  indicators :: "indicator list"
  thumbnails :: "thumbnail list"
  currentSlide :: "int option"

subsection \<open>Marker updates\<close>

definition updateIndicators :: "indicator list \<Rightarrow> int \<Rightarrow> indicator list" where
  "updateIndicators inds activeIndex =
     map (\<lambda>(index, ind). ind\<lparr>ind_active := (int index = activeIndex),
                              ind_selected := (int index = activeIndex)\<rparr>)
       (enumerate 0 inds)"

definition updateThumbnails :: "thumbnail list \<Rightarrow> int \<Rightarrow> thumbnail list" where
  "updateThumbnails thumbs activeIndex =
     map (\<lambda>(index, thumb). thumb\<lparr>th_active := (int index = activeIndex),
                                th_selected := (int index = activeIndex)\<rparr>)
       (enumerate 0 thumbs)"

subsection \<open>Video playback\<close>

text \<open>\<^verbatim>\<open>new URL(iframe.src).pathname.split('/').pop()\<close>\<close>

definition last_segment :: "string \<Rightarrow> error + string" where
  "last_segment src =
     (case parse_url src of
        None \<Rightarrow> Inl TypeError
      | Some u \<Rightarrow>
          Inr (case pop (split_str (CHR ''/'') (pathname u)) of
                 None \<Rightarrow> ''undefined''
               | Some seg \<Rightarrow> seg))"

text \<open>
  The rebuild of both halves of \<^verbatim>\<open>handleVideoPlayback\<close>: the id is read back from the
  iframe's source, a watch URL is made of it, and \<^verbatim>\<open>createYouTubeEmbed\<close> runs again.
\<close>

definition rebuild :: "string \<Rightarrow> bool \<Rightarrow> error + media option" where
  "rebuild src autoplay =
     (case last_segment src of
        Inl e \<Rightarrow> Inl e
      | Inr seg \<Rightarrow> Inr (createYouTubeEmbed (''https://youtube.com/watch?v='' @ seg) autoplay))"

text \<open>
  One round of the first loop. Every iframe sits in the wrapper that
  \<^verbatim>\<open>createYouTubeEmbed\<close> built and in the document, so \<^verbatim>\<open>closest\<close> finds the wrapper
  and \<^verbatim>\<open>contentWindow\<close> exists; the pause message posted to the player leaves the
  block's state as it is and is not recorded.
\<close>

definition pause_slide :: "slide \<Rightarrow> error + slide" where
  "pause_slide s =
     (case media s of
        Some (VideoWrapper src) \<Rightarrow>
          (case rebuild src False of
             Inl e \<Rightarrow> Inl e
           | Inr None \<Rightarrow> Inr s
           | Inr (Some newEmbed) \<Rightarrow> Inr (s\<lparr>media := Some newEmbed\<rparr>))
      | _ \<Rightarrow> Inr s)"

fun pause_all :: "slide list \<Rightarrow> error + slide list" where
  "pause_all [] = Inr []"
| "pause_all (s # ss) =
     (case pause_slide s of
        Inl e \<Rightarrow> Inl e
      | Inr s' \<Rightarrow> (case pause_all ss of Inl e \<Rightarrow> Inl e | Inr ss' \<Rightarrow> Inr (s' # ss')))"

text \<open>
  The second half: the active slide, when it is a video slide with an iframe, gets the
  autoplaying embed. \<^verbatim>\<open>slides[index]\<close> is \<^verbatim>\<open>undefined\<close> outside the list.
\<close>

definition start_active :: "slide list \<Rightarrow> int \<Rightarrow> error + slide list" where
  "start_active ss index =
     (if 0 \<le> index \<and> index < int (length ss) \<and> video_slide (ss ! nat index)
      then (case media (ss ! nat index) of
              Some (VideoWrapper src) \<Rightarrow>
                (case rebuild src True of
                   Inl e \<Rightarrow> Inl e
                 | Inr None \<Rightarrow> Inr ss
                 | Inr (Some autoplayEmbed) \<Rightarrow>
                     Inr (ss[nat index := (ss ! nat index)\<lparr>media := Some autoplayEmbed\<rparr>]))
            | _ \<Rightarrow> Inr ss)
      else Inr ss)"

definition handleVideoPlayback :: "slide list \<Rightarrow> int \<Rightarrow> error + slide list" where
  "handleVideoPlayback ss index =
     (case pause_all ss of
        Inl e \<Rightarrow> Inl e
      | Inr ss' \<Rightarrow> start_active ss' index)"

subsection \<open>The transition\<close>

text \<open>The index after the two wrap-around tests of \<^verbatim>\<open>scrollToSlide\<close>.\<close>

definition wrap_index :: "int \<Rightarrow> int \<Rightarrow> int" where
  "wrap_index n index = (if index < 0 then n - 1 else if index \<ge> n then 0 else index)"

text \<open>
  \<^verbatim>\<open>slideElements[index].classList\<close> throws when there is no such slide, which is the
  case exactly when the block has no slide at all.
\<close>

definition scrollToSlide :: "carousel \<Rightarrow> int \<Rightarrow> error + carousel" where
  "scrollToSlide block index0 =
     (let n = int (length (slides block));
          index = wrap_index n index0;
          cleared = map (\<lambda>s. s\<lparr>active := False\<rparr>) (slides block)
      in if index < 0 \<or> n \<le> index then Inl TypeError
         else (case handleVideoPlayback
                      (cleared[nat index := (cleared ! nat index)\<lparr>active := True\<rparr>]) index of
                 Inl e \<Rightarrow> Inl e
               | Inr ss \<Rightarrow>
                   Inr (block\<lparr>slides := ss,
                              indicators := updateIndicators (indicators block) index,
                              thumbnails := updateThumbnails (thumbnails block) index,
                              currentSlide := Some index\<rparr>)))"

subsection \<open>Decoration\<close>

text \<open>The selector \<^verbatim>\<open>a[href*="youtube.com"], a[href*="youtu.be"]\<close>, on the attribute.\<close>

definition is_youtube_anchor :: "node \<Rightarrow> bool" where
  "is_youtube_anchor nd =
     (case nd of
        Anchor attribute href \<Rightarrow>
          includes_str attribute ''youtube.com'' \<or> includes_str attribute ''youtu.be''
      | _ \<Rightarrow> False)"

text \<open>
  \<^verbatim>\<open>slide.querySelector('a[href*="youtube.com"], a[href*="youtu.be"]')\<close>: the first
  anchor of the row that the selector matches, as its \<^verbatim>\<open>link.href\<close>.
\<close>

definition youtube_link :: "node list \<Rightarrow> string option" where
  "youtube_link row =
     (case filter is_youtube_anchor row of Anchor attribute href # _ \<Rightarrow> Some href | _ \<Rightarrow> None)"

text \<open>\<^verbatim>\<open>slide.querySelector('img')\<close>\<close>

fun first_img :: "node list \<Rightarrow> (string \<times> string) option" where
  "first_img [] = None"
| "first_img (Img src alt # row) = Some (src, alt)"
| "first_img (nd # row) = first_img row"

text \<open>\<^verbatim>\<open>link.replaceWith(preview, linkWrapper)\<close> on the first YouTube anchor of the row.\<close>

fun replace_link :: "node list \<Rightarrow> node list \<Rightarrow> node list" where
  "replace_link preview [] = []"
| "replace_link preview (nd # row) =
     (if is_youtube_anchor nd then preview @ [Other] @ row else nd # replace_link preview row)"

text \<open>One round of the loop over the rows: the slide element and the row as it is left.\<close>

definition decorate_slide :: "nat \<Rightarrow> node list \<Rightarrow> slide \<times> node list" where
  "decorate_slide index row =
     (let slideDiv = \<lparr>active = (index = 0), video_slide = False, media = None\<rparr> in
      case youtube_link row of
        Some href \<Rightarrow>
          (case createYouTubeEmbed href False of
             Some videoEmbed \<Rightarrow>
               (slideDiv\<lparr>video_slide := True, media := Some videoEmbed\<rparr>,
                case createYouTubePreview href of
                  Some preview \<Rightarrow> replace_link preview row
                | None \<Rightarrow> row)
           | None \<Rightarrow> (slideDiv, row))
      | None \<Rightarrow>
          (case first_img row of
             Some (src, alt) \<Rightarrow> (slideDiv\<lparr>media := Some (Picture src alt [''2000'', ''750''])\<rparr>, row)
           | None \<Rightarrow> (slideDiv, row)))"

definition createIndicators :: "nat \<Rightarrow> indicator list" where
  "createIndicators count =
     map (\<lambda>i. \<lparr>ind_active = False, ind_selected = (i = 0), ind_target = i\<rparr>) [0..<count]"

definition createThumbnails :: "node list list \<Rightarrow> thumbnail list" where
  "createThumbnails rows =
     List.map_filter
       (\<lambda>(index, row).
          case first_img row of
            None \<Rightarrow> None
          | Some (src, alt) \<Rightarrow>
              Some \<lparr>th_active = (index = 0), th_selected = (index = 0), th_target = index,
                    th_picture = Picture src [] [''160'']\<rparr>)
       (enumerate 0 rows)"

definition decorate :: "node list list \<Rightarrow> carousel" where
  "decorate rows =
     (let processed = map (\<lambda>(index, row). decorate_slide index row) (enumerate 0 rows) in
      if 1 < length rows
      then \<lparr>slides = map fst processed, navigation = True,
            indicators = createIndicators (length rows),
            thumbnails = createThumbnails (map snd processed),
            currentSlide = Some 0\<rparr>
      else \<lparr>slides = map fst processed, navigation = False, indicators = [], thumbnails = [],
            currentSlide = None\<rparr>)"

subsection \<open>Events\<close>

text \<open>
  The handlers the decoration installs: the two navigation buttons, the indicator and
  thumbnail buttons by their position in the block, and the observer seeing a slide. A
  handler whose element does not exist cannot run and leaves the state as it is.
\<close>

datatype event = PrevClick | NextClick | IndicatorClick nat | ThumbnailClick nat | SlideSeen nat

definition fire :: "carousel \<Rightarrow> event \<Rightarrow> error + carousel" where
  "fire block ev =
     (case ev of
        PrevClick \<Rightarrow>
          (if navigation block
           then (case currentSlide block of
                   None \<Rightarrow> Inl TypeError
                 | Some currentIndex \<Rightarrow> scrollToSlide block (currentIndex - 1))
           else Inr block)
      | NextClick \<Rightarrow>
          (if navigation block
           then (case currentSlide block of
                   None \<Rightarrow> Inl TypeError
                 | Some currentIndex \<Rightarrow> scrollToSlide block (currentIndex + 1))
           else Inr block)
      | IndicatorClick k \<Rightarrow>
          (if k < length (indicators block)
           then scrollToSlide block (int (ind_target (indicators block ! k)))
           else Inr block)
      | ThumbnailClick k \<Rightarrow>
          (if k < length (thumbnails block)
           then scrollToSlide block (int (th_target (thumbnails block ! k)))
           else Inr block)
      | SlideSeen slideIndex \<Rightarrow>
          (if navigation block \<and> slideIndex < length (slides block) \<and>
              Some (int slideIndex) \<noteq> currentSlide block
           then scrollToSlide block (int slideIndex)
           else Inr block))"

fun run :: "carousel \<Rightarrow> event list \<Rightarrow> error + carousel" where
  "run block [] = Inr block"
| "run block (ev # evs) = (case fire block ev of Inl e \<Rightarrow> Inl e | Inr block' \<Rightarrow> run block' evs)"

section \<open>Video hero\<close>

subsection \<open>Query parameters and component encoding\<close>

text \<open>
  \<^verbatim>\<open>new URLSearchParams(search).get(name)\<close> and \<^verbatim>\<open>encodeURIComponent\<close> are browser
  primitives, modelled after their standards. The decoded value of a parameter may hold
  any code point, so it is a list of code points rather than a \<^typ>\<open>string\<close>.
\<close>

definition js_bytes :: "string \<Rightarrow> nat list" where
  "js_bytes s = concat (map (\<lambda>c. utf8_bytes (of_char c)) s)"

definition hex_val :: "nat \<Rightarrow> nat option" where
  "hex_val b =
     (if 0x30 \<le> b \<and> b \<le> 0x39 then Some (b - 0x30)
      else if 0x41 \<le> b \<and> b \<le> 0x46 then Some (b - 0x37)
      else if 0x61 \<le> b \<and> b \<le> 0x66 then Some (b - 0x57)
      else None)"

fun percent_decode :: "nat list \<Rightarrow> nat list" where
  "percent_decode (b # h # l # bs) =
     (if b = 0x25
      then (case (hex_val h, hex_val l) of
              (Some x, Some y) \<Rightarrow> (16 * x + y) # percent_decode bs
            | _ \<Rightarrow> b # percent_decode (h # l # bs))
      else b # percent_decode (h # l # bs))"
| "percent_decode bs = bs"

text \<open>
  The UTF-8 decoder with replacement: \<open>pending\<close> continuation bytes are still needed for
  the code point \<open>cp\<close>, and the next byte has to lie between \<open>lo\<close> and \<open>hi\<close>. A byte that
  does not fit yields U+FFFD and is read again as a first byte.
\<close>

fun utf8_decode_from :: "nat \<Rightarrow> nat \<Rightarrow> nat \<Rightarrow> nat \<Rightarrow> nat list \<Rightarrow> nat list" where
  "utf8_decode_from pending cp lo hi [] = (if pending = 0 then [] else [0xFFFD])"
| "utf8_decode_from pending cp lo hi (b # bs) =
     (if pending = 0 then
        (if b \<le> 0x7F then b # utf8_decode_from 0 0 0x80 0xBF bs
         else if 0xC2 \<le> b \<and> b \<le> 0xDF then utf8_decode_from 1 (b mod 32) 0x80 0xBF bs
         else if 0xE0 \<le> b \<and> b \<le> 0xEF
           then utf8_decode_from 2 (b mod 16) (if b = 0xE0 then 0xA0 else 0x80)
                  (if b = 0xED then 0x9F else 0xBF) bs
         else if 0xF0 \<le> b \<and> b \<le> 0xF4
           then utf8_decode_from 3 (b mod 8) (if b = 0xF0 then 0x90 else 0x80)
                  (if b = 0xF4 then 0x8F else 0xBF) bs
         else 0xFFFD # utf8_decode_from 0 0 0x80 0xBF bs)
      else if b < lo \<or> hi < b then 0xFFFD # utf8_decode_from 0 0 0x80 0xBF (b # bs)
      else if pending = 1 then (cp * 64 + b mod 64) # utf8_decode_from 0 0 0x80 0xBF bs
      else utf8_decode_from (pending - 1) (cp * 64 + b mod 64) 0x80 0xBF bs)"

definition utf8_decode :: "nat list \<Rightarrow> nat list" where
  "utf8_decode bs = utf8_decode_from 0 0 0x80 0xBF bs"

definition form_decode :: "nat list \<Rightarrow> nat list" where
  "form_decode bs = utf8_decode (percent_decode (map (\<lambda>b. if b = 0x2B then 0x20 else b) bs))"

definition urlencoded_parse :: "nat list \<Rightarrow> (nat list \<times> nat list) list" where
  "urlencoded_parse bytes =
     map (\<lambda>seq. (form_decode (takeWhile (\<lambda>b. b \<noteq> 0x3D) seq),
                 form_decode (drop 1 (dropWhile (\<lambda>b. b \<noteq> 0x3D) seq))))
       (filter (\<lambda>seq. seq \<noteq> []) (split_on (\<lambda>b. b = 0x26) bytes))"

definition usp_get :: "string \<Rightarrow> string \<Rightarrow> nat list option" where
  "usp_get init name =
     map_of (urlencoded_parse (js_bytes (case strip_prefix ''?'' init of Some r \<Rightarrow> r | None \<Rightarrow> init)))
       (map of_char name)"

definition unreserved :: "nat \<Rightarrow> bool" where
  "unreserved cp =
     (cp < 0x80 \<and>
      (char_of cp \<in> set ''ABCDEFGHIJKLMNOPQRSTUVWXYZabcdefghijklmnopqrstuvwxyz0123456789-_.!~*()'' \<or>
       cp = 0x27))"

definition encodeURIComponent :: "nat list \<Rightarrow> string" where
  "encodeURIComponent cps =
     concat (map (\<lambda>cp. if unreserved cp then [char_of cp] else concat (map pct_byte (utf8_bytes cp))) cps)"

subsection \<open>The three embeds\<close>

text \<open>
  The background wrapper with what it holds: an iframe with its \<^verbatim>\<open>src\<close> as interpolated
  into the markup, or a video element with the \<^verbatim>\<open>src\<close> and \<^verbatim>\<open>type\<close> of its source.
  These are the attribute values as the template literal writes them; a character
  reference inside one, which the HTML parser would decode when \<^verbatim>\<open>innerHTML\<close> is set,
  is kept as written.
\<close>

datatype hero_embed = Iframe string | Video string string

text \<open>\<^verbatim>\<open>Object.entries(suffixParams).map(([k, v]) => k=encodeURIComponent(v)).join('&')\<close>\<close>

fun join_params :: "(string \<times> string) list \<Rightarrow> string" where
  "join_params [] = []"
| "join_params [(k, v)] = k @ ''='' @ encodeURIComponent (map of_char v)"
| "join_params ((k, v) # kvs) = k @ ''='' @ encodeURIComponent (map of_char v) @ ''&'' @ join_params kvs"

text \<open>\<^verbatim>\<open>[, x] = s.split('/')\<close>: the second piece, \<open>None\<close> for \<^verbatim>\<open>undefined\<close>.\<close>

definition second_piece :: "string \<Rightarrow> string option" where
  "second_piece s = (case split_str (CHR ''/'') s of a # x # rest \<Rightarrow> Some x | _ \<Rightarrow> None)"

definition embedYoutube :: "url \<Rightarrow> hero_embed" where
  "embedYoutube u =
     (let v = usp_get (search u) ''v'';
          vid0 = (case v of None \<Rightarrow> [] | Some cps \<Rightarrow> if cps = [] then [] else encodeURIComponent cps);
          embed = pathname u;
          vid = (if includes_str (origin u) ''youtu.be''
                 then (case second_piece (pathname u) of None \<Rightarrow> [] | Some x \<Rightarrow> x)
                 else vid0);
          suffixParams = [(''autoplay'', ''1''), (''mute'', ''1''), (''controls'', ''0''),
                          (''disablekb'', ''1''), (''loop'', ''1''), (''playsinline'', ''1''),
                          (''playlist'', vid)];
          suffix = ''&'' @ join_params suffixParams
      in Iframe (''https://www.youtube.com'' @
                 (if vid \<noteq> [] then ''/embed/'' @ vid @ ''?rel=0&v='' @ vid @ suffix else embed)))"

definition embedVimeo :: "url \<Rightarrow> hero_embed" where
  "embedVimeo u =
     (let video = (case second_piece (pathname u) of None \<Rightarrow> ''undefined'' | Some x \<Rightarrow> x);
          suffixParams = [(''autoplay'', ''1''), (''background'', ''1''), (''loop'', ''1''),
                          (''muted'', ''1'')];
          suffix = ''?'' @ join_params suffixParams
      in Iframe (''https://player.vimeo.com/video/'' @ video @ suffix))"

definition getVideoElement :: "string \<Rightarrow> hero_embed" where
  "getVideoElement source = Video source (''video/'' @ last (split_str (CHR ''.'') source))"

subsection \<open>State of the block\<close>

datatype hero_child = Background hero_embed | Overlay "string option" "string option"

datatype observer_state = Observing | Disconnected

text \<open>
  The block: the text set on it directly, its children, \<^verbatim>\<open>dataset.embedLoaded\<close>, the
  \<^verbatim>\<open>no-video\<close> class, the observer if one was constructed, and the link its callback
  closes over.
\<close>

record hero =
  textContent :: string
  children :: "hero_child list"
  embedLoaded :: "string option"
  no_video :: bool
  observer :: "observer_state option"
  video_link :: string

text \<open>
  The authored block: the \<^verbatim>\<open>href\<close> property of its first anchor (\<open>None\<close> without an
  anchor) and the text of its first \<^verbatim>\<open>h1\<close> and \<^verbatim>\<open>h2\<close>.
\<close>

record hero_source =
  anchor :: "string option"
  h1 :: "string option"
  h2 :: "string option"

subsection \<open>Loading the embed\<close>

text \<open>
  An embed is prepended with a listener on it; the listener runs at the embed's
  \<^verbatim>\<open>load\<close> or \<^verbatim>\<open>canplay\<close> event, not here.
\<close>

definition loadVideoEmbed :: "hero \<Rightarrow> string \<Rightarrow> error + hero" where
  "loadVideoEmbed block link =
     (if embedLoaded block = Some ''true'' then Inr block
      else (case parse_url link of
              None \<Rightarrow> Inl TypeError
            | Some u \<Rightarrow>
                (let isYoutube = includes_str link ''youtube'' \<or> includes_str link ''youtu.be'';
                     isVimeo = includes_str link ''vimeo'';
                     embedWrapper = (if isYoutube then embedYoutube u
                                     else if isVimeo then embedVimeo u
                                     else getVideoElement link)
                 in Inr (block\<lparr>children := Background embedWrapper # children block\<rparr>))))"

definition decorate_hero :: "hero_source \<Rightarrow> hero" where
  "decorate_hero src =
     (let link = (case anchor src of None \<Rightarrow> [] | Some href \<Rightarrow> href) in
      if link = []
      then \<lparr>textContent = ''Video URL is required'', children = [], embedLoaded = None,
            no_video = False, observer = None, video_link = link\<rparr>
      else (let h1Text = (case h1 src of None \<Rightarrow> [] | Some t \<Rightarrow> t);
                h2Text = (case h2 src of None \<Rightarrow> [] | Some t \<Rightarrow> t)
            in \<lparr>textContent = [],
                children = [Overlay (if h1Text \<noteq> [] then Some h1Text else None)
                                    (if h2Text \<noteq> [] then Some h2Text else None)],
                embedLoaded = Some ''false'', no_video = False, observer = Some Observing,
                video_link = link\<rparr>))"

text \<open>
  The observer's callback, with the entries' \<^verbatim>\<open>isIntersecting\<close> flags and the value of
  \<^verbatim>\<open>prefersReducedMotion.matches\<close> at that moment. A \<^verbatim>\<open>TypeError\<close> of
  \<^verbatim>\<open>loadVideoEmbed\<close> ends the callback after the disconnect.
\<close>

definition observer_callback :: "hero \<Rightarrow> bool list \<Rightarrow> bool \<Rightarrow> hero" where
  "observer_callback block entries reducedMotion =
     (if list_ex (\<lambda>isIntersecting. isIntersecting) entries
      then (let block' = block\<lparr>observer := Some Disconnected\<rparr> in
            if \<not> reducedMotion
            then (case loadVideoEmbed block' (video_link block') of
                    Inl e \<Rightarrow> block'
                  | Inr loaded \<Rightarrow> loaded)
            else block'\<lparr>no_video := True\<rparr>)
      else block)"

text \<open>
  What the browser delivers to the block: intersection entries, which reach the callback
  only while the observer observes, and the load event of an inserted embed, which runs
  its listener.
\<close>

datatype hero_event = Intersection "bool list" bool | EmbedReady

definition is_background :: "hero_child \<Rightarrow> bool" where
  "is_background ch = (case ch of Background e \<Rightarrow> True | Overlay a b \<Rightarrow> False)"

definition hero_step :: "hero \<Rightarrow> hero_event \<Rightarrow> hero" where
  "hero_step block ev =
     (case ev of
        Intersection entries reducedMotion \<Rightarrow>
          (if observer block = Some Observing then observer_callback block entries reducedMotion
           else block)
      | EmbedReady \<Rightarrow>
          (if list_ex is_background (children block) then block\<lparr>embedLoaded := Some ''true''\<rparr>
           else block))"

fun hero_run :: "hero \<Rightarrow> hero_event list \<Rightarrow> hero" where
  "hero_run block [] = block"
| "hero_run block (ev # evs) = hero_run (hero_step block ev) evs"

text \<open>The embeds constructed and inserted so far: nothing ever removes one.\<close>

definition embeds :: "hero \<Rightarrow> hero_embed list" where
  "embeds block = concat (map (\<lambda>ch. case ch of Background e \<Rightarrow> [e] | Overlay a b \<Rightarrow> []) (children block))"

section \<open>Notions used in the properties\<close>

text \<open>An event that makes the callback act: a delivery with an intersecting entry.\<close>

definition is_trigger :: "hero_event \<Rightarrow> bool" where
  "is_trigger ev =
     (case ev of
        Intersection entries reducedMotion \<Rightarrow> list_ex (\<lambda>isIntersecting. isIntersecting) entries
      | EmbedReady \<Rightarrow> False)"

text \<open>The indices of the slides that carry the \<^verbatim>\<open>active\<close> class.\<close>

definition active_indices :: "slide list \<Rightarrow> nat list" where
  "active_indices ss = filter (\<lambda>i. active (ss ! i)) [0..<length ss]"

text \<open>The slides that the active indicators and the active thumbnails lead to.\<close>

definition active_indicator_targets :: "carousel \<Rightarrow> nat list" where
  "active_indicator_targets block = map ind_target (filter ind_active (indicators block))"

definition active_thumbnail_targets :: "carousel \<Rightarrow> nat list" where
  "active_thumbnail_targets block = map th_target (filter th_active (thumbnails block))"

text \<open>
  JavaScript's \<^verbatim>\<open>%\<close> on integers (the sign follows the dividend), and the index
  \<^verbatim>\<open>((targetIndex % length) + length) % length\<close> built from it.
\<close>

definition js_rem :: "int \<Rightarrow> int \<Rightarrow> int" where
  "js_rem a b = sgn a * (\<bar>a\<bar> mod \<bar>b\<bar>)"

definition modular_index :: "int \<Rightarrow> int \<Rightarrow> int" where
  "modular_index targetIndex len = js_rem (js_rem targetIndex len + len) len"

text \<open>No iframe of the slide has a source on which \<^verbatim>\<open>new URL\<close> throws.\<close>

definition embed_parses :: "slide \<Rightarrow> bool" where
  "embed_parses s =
     (case media s of Some (VideoWrapper src) \<Rightarrow> parse_url src \<noteq> None | _ \<Rightarrow> True)"

text \<open>
  A code unit that the URL parser keeps as it is inside one path segment: not
  percent-encoded, not a separator of segments, not the start of the query or fragment.
\<close>

definition path_verbatim :: "char \<Rightarrow> bool" where
  "path_verbatim c = (\<not> path_set c \<and> \<not> is_slash c \<and> c \<noteq> CHR ''#'')"

definition stable_id :: "string \<Rightarrow> bool" where
  "stable_id v = (length v = 11 \<and> list_all id_char v \<and> list_all path_verbatim v)"

text \<open>
  A row with an image; and a row that has an image when the thumbnails are made: it holds
  one, or its first YouTube anchor (the one \<^verbatim>\<open>querySelector\<close> returns) has a
  \<^verbatim>\<open>link.href\<close> in which the pattern finds an id, so that the preview image takes the
  anchor's place. Further YouTube anchors of the row are never looked at.
\<close>

definition has_image :: "node list \<Rightarrow> bool" where
  "has_image row = (first_img row \<noteq> None)"

definition row_gets_thumbnail :: "node list \<Rightarrow> bool" where
  "row_gets_thumbnail row =
     (has_image row \<or>
      (case youtube_link row of None \<Rightarrow> False | Some href \<Rightarrow> video_id_match href \<noteq> None))"

text \<open>The carousel of the scenario: an image, a video, an image.\<close>

definition three_slides :: "node list list" where
  "three_slides =
     [[Img ''image-a.jpg'' ''Image A''],
      [Anchor ''https://www.youtube.com/watch?v=XYZ12345678''
         ''https://www.youtube.com/watch?v=XYZ12345678''],
      [Img ''image-b.jpg'' ''Image B'']]"

text \<open>One transition after another; an exception ends the sequence.\<close>

definition then_scroll :: "error + carousel \<Rightarrow> int \<Rightarrow> error + carousel" where
  "then_scroll r index = (case r of Inl e \<Rightarrow> Inl e | Inr block \<Rightarrow> scrollToSlide block index)"

text \<open>What can be seen of the block after a transition.\<close>

definition active_after :: "error + carousel \<Rightarrow> error + nat list" where
  "active_after r = (case r of Inl e \<Rightarrow> Inl e | Inr block \<Rightarrow> Inr (active_indices (slides block)))"

definition media_after :: "error + carousel \<Rightarrow> error + media option list" where
  "media_after r = (case r of Inl e \<Rightarrow> Inl e | Inr block \<Rightarrow> Inr (map media (slides block)))"

definition thumbnail_targets_after :: "error + carousel \<Rightarrow> error + nat list" where
  "thumbnail_targets_after r =
     (case r of Inl e \<Rightarrow> Inl e | Inr block \<Rightarrow> Inr (active_thumbnail_targets block))"

definition indicator_targets_after :: "error + carousel \<Rightarrow> error + nat list" where
  "indicator_targets_after r =
     (case r of Inl e \<Rightarrow> Inl e | Inr block \<Rightarrow> Inr (active_indicator_targets block))"

text \<open>A carousel whose first row has neither an image nor a link.\<close>

definition imageless_first :: "node list list" where
  "imageless_first =
     [[Other], [Img ''image-a.jpg'' ''Image A''], [Img ''image-b.jpg'' ''Image B'']]"

section \<open>Properties of the video hero\<close>

lemma embeds_update [simp]:
  "embeds (b\<lparr>observer := ob\<rparr>) = embeds b"
  "embeds (b\<lparr>no_video := nv\<rparr>) = embeds b"
  "embeds (b\<lparr>embedLoaded := fl\<rparr>) = embeds b"
  by (simp_all add: embeds_def)

lemma embeds_Nil_iff: "embeds b = [] \<longleftrightarrow> \<not> list_ex is_background (children b)"
  by (induction "children b" arbitrary: b)
     (auto simp: embeds_def is_background_def list_ex_iff split: hero_child.splits)

lemma embeds_decorate_hero: "embeds (decorate_hero src) = []"
  by (simp add: decorate_hero_def embeds_def Let_def)

text \<open>Without a live observer and without an embed, no event changes the block.\<close>

lemma hero_run_idle:
  "observer b \<noteq> Some Observing \<Longrightarrow> embeds b = [] \<Longrightarrow> hero_run b evs = b"
proof (induction evs)
  case Nil
  show ?case by simp
next
  case (Cons ev evs)
  have "hero_step b ev = b"
    using Cons.prems by (cases ev) (simp_all add: hero_step_def embeds_Nil_iff)
  with Cons show ?case by simp
qed

text \<open>Before the first trigger nothing happens either.\<close>

lemma hero_run_quiet:
  "list_all (\<lambda>ev. \<not> is_trigger ev) pre \<Longrightarrow> embeds b = [] \<Longrightarrow>
   hero_run b (pre @ evs) = hero_run b evs"
proof (induction pre)
  case Nil
  show ?case by simp
next
  case (Cons ev pre)
  have "hero_step b ev = b"
    using Cons.prems
    by (cases ev) (simp_all add: hero_step_def observer_callback_def is_trigger_def embeds_Nil_iff)
  with Cons show ?case by simp
qed

lemma embeds_loadVideoEmbed:
  "loadVideoEmbed b link = Inr b' \<Longrightarrow>
   length (embeds b') \<le> Suc (length (embeds b)) \<and> observer b' = observer b"
  by (auto simp: loadVideoEmbed_def embeds_def Let_def split: if_splits option.splits)

text \<open>
  The invariant behind the single load: while the observer observes there is no embed,
  and there is never more than one.
\<close>

lemma hero_step_once:
  assumes "observer b = Some Observing \<longrightarrow> embeds b = []" "length (embeds b) \<le> 1"
  shows "(observer (hero_step b ev) = Some Observing \<longrightarrow> embeds (hero_step b ev) = []) \<and>
         length (embeds (hero_step b ev)) \<le> 1"
proof (cases ev)
  case EmbedReady
  then show ?thesis using assms by (simp add: hero_step_def)
next
  case (Intersection entries reducedMotion)
  show ?thesis
  proof (cases "observer b = Some Observing \<and> list_ex (\<lambda>i. i) entries")
    case False
    then show ?thesis using assms Intersection
      by (auto simp: hero_step_def observer_callback_def)
  next
    case True
    let ?b = "b\<lparr>observer := Some Disconnected\<rparr>"
    have e: "embeds ?b = []" using True assms by simp
    show ?thesis
    proof (cases "loadVideoEmbed ?b (video_link ?b)")
      case (Inl err)
      then show ?thesis using True Intersection e
        by (simp add: hero_step_def observer_callback_def Let_def)
    next
      case (Inr loaded)
      from embeds_loadVideoEmbed[OF Inr] e
      have "length (embeds loaded) \<le> 1" "observer loaded = Some Disconnected" by simp_all
      then show ?thesis using True Intersection Inr e
        by (simp add: hero_step_def observer_callback_def Let_def)
    qed
  qed
qed

lemma hero_run_once:
  "(observer b = Some Observing \<longrightarrow> embeds b = []) \<Longrightarrow> length (embeds b) \<le> 1 \<Longrightarrow>
   length (embeds (hero_run b evs)) \<le> 1"
proof (induction evs arbitrary: b)
  case Nil
  then show ?case by simp
next
  case (Cons ev evs)
  have "(observer (hero_step b ev) = Some Observing \<longrightarrow> embeds (hero_step b ev) = [])"
    and "length (embeds (hero_step b ev)) \<le> 1"
    using hero_step_once[OF Cons.prems, of ev] by simp_all
  then have "length (embeds (hero_run (hero_step b ev) evs)) \<le> 1"
    by (rule Cons.IH)
  then show ?case by simp
qed

text \<open>
  Claim C2. Whatever the browser delivers after decoration, in any order and any number
  (intersection entries before or after the embed's load event), at most one embed is
  ever constructed and inserted.
\<close>

theorem embed_constructed_at_most_once:
  "length (embeds (hero_run (decorate_hero src) evs)) \<le> 1"
  by (rule hero_run_once) (simp_all add: embeds_decorate_hero)

text \<open>
  The protection is the disconnect, not the flag: the flag is still \<^verbatim>\<open>false\<close> until the
  load event, and the callback run twice by hand before that event loads twice.
\<close>

lemma callback_twice_before_load:
  "length (embeds (observer_callback (observer_callback
      (decorate_hero \<lparr>anchor = Some ''https://example.com/a.mp4'', h1 = None, h2 = None\<rparr>)
      [True] False) [True] False)) = 2"
  by code_simp

text \<open>
  Claim C7. When the reduced-motion preference is signalled at the first trigger, no
  iframe and no video element is constructed, then or later, and the block carries the
  \<^verbatim>\<open>no-video\<close> class.
\<close>

theorem reduced_motion_never_loads:
  assumes "anchor src = Some link" and "link \<noteq> []"
    and "list_all (\<lambda>ev. \<not> is_trigger ev) pre"
    and "list_ex (\<lambda>isIntersecting. isIntersecting) entries"
  shows "embeds (hero_run (decorate_hero src) (pre @ Intersection entries True # post)) = [] \<and>
         no_video (hero_run (decorate_hero src) (pre @ Intersection entries True # post))"
proof -
  let ?d = "decorate_hero src"
  let ?t = "hero_step ?d (Intersection entries True)"
  have obs: "observer ?d = Some Observing"
    using assms(1,2) by (simp add: decorate_hero_def Let_def)
  have t: "?t = ?d\<lparr>observer := Some Disconnected, no_video := True\<rparr>"
    using obs assms(4) by (simp add: hero_step_def observer_callback_def Let_def)
  have "hero_run ?d (pre @ Intersection entries True # post) = hero_run ?t post"
    using hero_run_quiet[OF assms(3) embeds_decorate_hero] by simp
  also have "\<dots> = ?t"
    by (rule hero_run_idle) (simp_all add: t embeds_decorate_hero)
  finally show ?thesis
    by (simp add: t embeds_decorate_hero)
qed

theorem reduced_motion_never_loads_witness:
  "embeds (hero_run (decorate_hero \<lparr>anchor = Some ''https://youtu.be/dQw4w9WgXcQ'', h1 = None, h2 = None\<rparr>)
      ([Intersection [False] False, EmbedReady] @ Intersection [False, True] True #
       [Intersection [True] False, EmbedReady])) = [] \<and>
   no_video (hero_run (decorate_hero \<lparr>anchor = Some ''https://youtu.be/dQw4w9WgXcQ'', h1 = None, h2 = None\<rparr>)
      ([Intersection [False] False, EmbedReady] @ Intersection [False, True] True #
       [Intersection [True] False, EmbedReady]))"
  using reduced_motion_never_loads
    [of "\<lparr>anchor = Some ''https://youtu.be/dQw4w9WgXcQ'', h1 = None, h2 = None\<rparr>"
        "''https://youtu.be/dQw4w9WgXcQ''" "[Intersection [False] False, EmbedReady]"
        "[False, True]" "[Intersection [True] False, EmbedReady]"]
  by (simp add: is_trigger_def)

lemma parse_short_link:
  "parse_url ''https://youtu.be/dQw4w9WgXcQ'' =
     Some \<lparr>origin = ''https://youtu.be'', pathname = ''/dQw4w9WgXcQ'', search = []\<rparr>"
  by code_simp

lemma embedYoutube_short_link:
  "embedYoutube \<lparr>origin = ''https://youtu.be'', pathname = ''/dQw4w9WgXcQ'', search = []\<rparr> =
     Iframe ''https://www.youtube.com/embed/dQw4w9WgXcQ?rel=0&v=dQw4w9WgXcQ&autoplay=1&mute=1&controls=0&disablekb=1&loop=1&playsinline=1&playlist=dQw4w9WgXcQ''"
  by code_simp

lemma short_link_is_youtube: "includes_str ''https://youtu.be/dQw4w9WgXcQ'' ''youtu.be''"
  by code_simp

lemma short_link_params:
  "map_option (\<lambda>u. (pathname u, usp_get (search u) ''playlist'', usp_get (search u) ''loop''))
     (parse_url ''https://www.youtube.com/embed/dQw4w9WgXcQ?rel=0&v=dQw4w9WgXcQ&autoplay=1&mute=1&controls=0&disablekb=1&loop=1&playsinline=1&playlist=dQw4w9WgXcQ'')
   = Some (''/embed/dQw4w9WgXcQ'', Some (map of_char ''dQw4w9WgXcQ''), Some (map of_char ''1''))"
  by code_simp

text \<open>
  Claim C8. For the link \<^verbatim>\<open>https://youtu.be/dQw4w9WgXcQ\<close>, the first trigger without a
  reduced-motion signal inserts exactly one iframe; its source plays the video
  \<^verbatim>\<open>dQw4w9WgXcQ\<close> (the path is \<^verbatim>\<open>/embed/dQw4w9WgXcQ\<close>) with \<^verbatim>\<open>loop=1\<close> and the
  \<^verbatim>\<open>playlist\<close> parameter equal to the same id.
\<close>

theorem short_link_embed:
  assumes "anchor src = Some ''https://youtu.be/dQw4w9WgXcQ''"
    and "list_ex (\<lambda>isIntersecting. isIntersecting) entries"
  shows "embeds (hero_step (decorate_hero src) (Intersection entries False)) =
           [Iframe ''https://www.youtube.com/embed/dQw4w9WgXcQ?rel=0&v=dQw4w9WgXcQ&autoplay=1&mute=1&controls=0&disablekb=1&loop=1&playsinline=1&playlist=dQw4w9WgXcQ''] \<and>
         map_option (\<lambda>u. (pathname u, usp_get (search u) ''playlist'', usp_get (search u) ''loop''))
           (parse_url ''https://www.youtube.com/embed/dQw4w9WgXcQ?rel=0&v=dQw4w9WgXcQ&autoplay=1&mute=1&controls=0&disablekb=1&loop=1&playsinline=1&playlist=dQw4w9WgXcQ'')
         = Some (''/embed/dQw4w9WgXcQ'', Some (map of_char ''dQw4w9WgXcQ''), Some (map of_char ''1''))"
proof -
  let ?d = "decorate_hero src"
  have d: "observer ?d = Some Observing" "video_link ?d = ''https://youtu.be/dQw4w9WgXcQ''"
    "embedLoaded ?d = Some ''false''" "embeds ?d = []"
    using assms(1) by (simp_all add: decorate_hero_def Let_def embeds_def)
  have "loadVideoEmbed (?d\<lparr>observer := Some Disconnected\<rparr>) ''https://youtu.be/dQw4w9WgXcQ'' =
     Inr (?d\<lparr>observer := Some Disconnected,
               children := Background (Iframe ''https://www.youtube.com/embed/dQw4w9WgXcQ?rel=0&v=dQw4w9WgXcQ&autoplay=1&mute=1&controls=0&disablekb=1&loop=1&playsinline=1&playlist=dQw4w9WgXcQ'') # children ?d\<rparr>)"
    using d(3)
    by (simp add: loadVideoEmbed_def parse_short_link embedYoutube_short_link
          short_link_is_youtube Let_def)
  then have "embeds (hero_step ?d (Intersection entries False)) =
      [Iframe ''https://www.youtube.com/embed/dQw4w9WgXcQ?rel=0&v=dQw4w9WgXcQ&autoplay=1&mute=1&controls=0&disablekb=1&loop=1&playsinline=1&playlist=dQw4w9WgXcQ'']"
    using d assms(2)
    by (simp add: hero_step_def observer_callback_def Let_def) (simp add: embeds_def)
  with short_link_params show ?thesis by simp
qed

theorem short_link_embed_witness:
  "embeds (hero_step
      (decorate_hero \<lparr>anchor = Some ''https://youtu.be/dQw4w9WgXcQ'', h1 = Some ''Welcome'', h2 = None\<rparr>)
      (Intersection [False, True] False)) =
     [Iframe ''https://www.youtube.com/embed/dQw4w9WgXcQ?rel=0&v=dQw4w9WgXcQ&autoplay=1&mute=1&controls=0&disablekb=1&loop=1&playsinline=1&playlist=dQw4w9WgXcQ'']"
  using short_link_embed
    [of "\<lparr>anchor = Some ''https://youtu.be/dQw4w9WgXcQ'', h1 = Some ''Welcome'', h2 = None\<rparr>"
        "[False, True]"]
  by simp

lemma decorate_hero_no_link:
  "anchor src = None \<Longrightarrow>
   decorate_hero src =
     \<lparr>textContent = ''Video URL is required'', children = [], embedLoaded = None,
      no_video = False, observer = None, video_link = []\<rparr>"
  by (simp add: decorate_hero_def)

text \<open>
  Claim C9. A block without an anchor is decorated to the fixed message alone: no
  child, no observer, and no later event changes it.
\<close>

theorem hero_without_link_is_terminal:
  assumes "anchor src = None"
  shows "textContent (decorate_hero src) = ''Video URL is required'' \<and>
         children (decorate_hero src) = [] \<and>
         observer (decorate_hero src) = None \<and>
         hero_run (decorate_hero src) evs = decorate_hero src"
proof -
  have d: "decorate_hero src =
      \<lparr>textContent = ''Video URL is required'', children = [], embedLoaded = None,
       no_video = False, observer = None, video_link = []\<rparr>"
    using assms by (rule decorate_hero_no_link)
  have "hero_run (decorate_hero src) evs = decorate_hero src"
    by (rule hero_run_idle) (simp_all add: d embeds_def)
  then show ?thesis by (simp add: d)
qed

theorem hero_without_link_is_terminal_witness:
  "anchor \<lparr>anchor = None, h1 = Some ''Title'', h2 = None\<rparr> = None \<and>
   textContent (decorate_hero \<lparr>anchor = None, h1 = Some ''Title'', h2 = None\<rparr>) =
     ''Video URL is required'' \<and>
   observer (decorate_hero \<lparr>anchor = None, h1 = Some ''Title'', h2 = None\<rparr>) = None \<and>
   hero_run (decorate_hero \<lparr>anchor = None, h1 = Some ''Title'', h2 = None\<rparr>)
     [Intersection [True] False, EmbedReady, Intersection [True, False] True]
     = decorate_hero \<lparr>anchor = None, h1 = Some ''Title'', h2 = None\<rparr>"
  using hero_without_link_is_terminal
    [of "\<lparr>anchor = None, h1 = Some ''Title'', h2 = None\<rparr>"
        "[Intersection [True] False, EmbedReady, Intersection [True, False] True]"]
  by simp

section \<open>Properties of the id pattern\<close>

text \<open>
  What the pattern captures is eleven code units of its class, all taken from the string
  it was matched against; and a watch URL made of such an id gives the id back.
\<close>


lemma strip_prefix_Some: "strip_prefix p s = Some r \<Longrightarrow> s = p @ r"
  by (induction p s rule: strip_prefix.induct) (auto split: if_splits)

lemma strip_prefix_append [simp]: "strip_prefix p (p @ r) = Some r"
  by (induction p) auto

lemma take_id_Some:
  "take_id s = Some v \<Longrightarrow> length v = 11 \<and> list_all id_char v \<and> set v \<subseteq> set s"
  by (auto simp: take_id_def split: if_splits dest: in_set_takeD)

lemma take_id_exact: "length v = 11 \<Longrightarrow> list_all id_char v \<Longrightarrow> take_id (v @ r) = Some v"
  by (simp add: take_id_def)

lemma bind_take_id:
  "Option.bind (strip_prefix p s) take_id = Some v \<Longrightarrow>
   length v = 11 \<and> list_all id_char v \<and> set v \<subseteq> set s"
  by (auto simp: bind_eq_Some_conv dest!: strip_prefix_Some take_id_Some)

lemma dot_star_v_Some:
  "dot_star_v s = Some v \<Longrightarrow> length v = 11 \<and> list_all id_char v \<and> set v \<subseteq> set s"
proof (induction s)
  case Nil
  then show ?case by simp
next
  case (Cons c cs)
  show ?case
  proof (cases "if line_terminator c then None else dot_star_v cs")
    case (Some w)
    with Cons.prems have "dot_star_v cs = Some v" by (simp split: if_splits)
    with Cons.IH show ?thesis by auto
  next
    case None
    with Cons.prems have "Option.bind (strip_prefix ''&v='' (c # cs)) take_id = Some v"
      by (simp del: strip_prefix.simps split: option.splits)
    then show ?thesis by (rule bind_take_id)
  qed
qed

lemma dot_plus_v_Some:
  "dot_plus_v s = Some v \<Longrightarrow> length v = 11 \<and> list_all id_char v \<and> set v \<subseteq> set s"
  by (cases s) (auto simp: dot_plus_v_def split: if_splits dest: dot_star_v_Some)

lemma bind_strip_prefix:
  assumes "Option.bind (strip_prefix p s) f = Some v"
    and "\<And>r. f r = Some v \<Longrightarrow> P \<and> set v \<subseteq> set r"
  shows "P \<and> set v \<subseteq> set s"
proof -
  from assms(1) obtain r where r: "strip_prefix p s = Some r" "f r = Some v"
    by (auto simp: bind_eq_Some_conv)
  from strip_prefix_Some[OF r(1)] assms(2)[OF r(2)] show ?thesis by auto
qed

lemma after_youtube_com_Some:
  assumes "after_youtube_com s = Some v"
  shows "length v = 11 \<and> list_all id_char v \<and> set v \<subseteq> set s"
proof -
  consider "Option.bind (strip_prefix ''/embed/'' s) take_id = Some v"
    | "Option.bind (strip_prefix ''/v/'' s) take_id = Some v"
    | "Option.bind (strip_prefix ''/watch?v='' s) take_id = Some v"
    | "Option.bind (strip_prefix ''/watch?'' s) dot_plus_v = Some v"
    using assms unfolding after_youtube_com_def by (auto split: option.splits)
  then show ?thesis
  proof cases
    case 4
    have "(length v = 11 \<and> list_all id_char v) \<and> set v \<subseteq> set s"
      using 4 by (rule bind_strip_prefix) (auto dest: dot_plus_v_Some)
    then show ?thesis by simp
  qed (rule bind_take_id, assumption)+
qed

lemma match_here_Some:
  assumes "match_here s = Some v"
  shows "length v = 11 \<and> list_all id_char v \<and> set v \<subseteq> set s"
proof -
  consider "Option.bind (strip_prefix ''youtu.be/'' s) take_id = Some v"
    | "Option.bind (strip_prefix ''youtube.com'' s) after_youtube_com = Some v"
    using assms unfolding match_here_def by (auto split: option.splits)
  then show ?thesis
  proof cases
    case 1
    then show ?thesis by (rule bind_take_id)
  next
    case 2
    have "(length v = 11 \<and> list_all id_char v) \<and> set v \<subseteq> set s"
      using 2 by (rule bind_strip_prefix) (auto dest: after_youtube_com_Some)
    then show ?thesis by simp
  qed
qed

lemma video_id_match_Some:
  "video_id_match s = Some v \<Longrightarrow> length v = 11 \<and> list_all id_char v \<and> set v \<subseteq> set s"
proof (induction s)
  case Nil
  then show ?case by (auto dest: match_here_Some)
next
  case (Cons c cs)
  show ?case
  proof (cases "match_here (c # cs)")
    case None
    with Cons show ?thesis by auto
  next
    case (Some w)
    with Cons.prems have "match_here (c # cs) = Some v" by simp
    then show ?thesis by (rule match_here_Some)
  qed
qed

lemma watch_url_match:
  assumes "length v = 11" "list_all id_char v"
  shows "video_id_match (''https://youtube.com/watch?v='' @ v @ r) = Some v"
  using assms by (simp add: match_here_def after_youtube_com_def take_id_exact)

section \<open>Properties of the URL parser on embed sources\<close>

text \<open>
  The source of an embed always parses. Every path the parser computes consists of
  slashes and of code units it keeps verbatim, so the last segment of a path is stable
  under another round through the parser; and for a stable id the last segment of the
  embed's path is the id.
\<close>

lemma id_char_not_stripped: "id_char c \<Longrightarrow> \<not> tab_or_newline c"
  by (auto simp: id_char_def js_space_def tab_or_newline_def)

lemma rev_dropWhile_rev_keep:
  "s \<noteq> [] \<Longrightarrow> \<not> P (last s) \<Longrightarrow> rev (dropWhile P (rev s)) = s"
  by (cases s rule: rev_cases) auto

lemma url_input_embed_src:
  assumes "list_all id_char v"
  shows "url_input (embed_src v a) = embed_src v a"
proof -
  have 1: "dropWhile c0_or_space (embed_src v a) = embed_src v a"
    by (simp add: embed_src_def c0_or_space_def)
  have 2: "rev (dropWhile c0_or_space (rev (embed_src v a))) = embed_src v a"
    by (rule rev_dropWhile_rev_keep) (simp_all add: embed_src_def c0_or_space_def)
  have 3: "filter (\<lambda>c. \<not> tab_or_newline c) v = v"
    using assms by (simp add: filter_id_conv list_all_iff id_char_not_stripped)
  have lit: "\<not> tab_or_newline c" if "c \<in> set ''https://www.youtube.com/embed/?rel=0&enablejsapi=1&autoplay=1&mute=1''" for c
    using that by (auto simp: tab_or_newline_def)
  have 4: "filter (\<lambda>c. \<not> tab_or_newline c) (embed_src v a) = embed_src v a"
    unfolding embed_src_def filter_append 3
    by (simp add: filter_id_conv lit)
  show ?thesis by (simp add: url_input_def 1 2 4)
qed

lemma plain_host_youtube: "plain_host ''www.youtube.com''"
  by code_simp

lemma url_split_embed_src:
  assumes "list_all id_char v"
  shows "url_split (embed_src v a) =
    Some (''https'', ''www.youtube.com'',
          ''/embed/'' @ v @ ''?rel=0&enablejsapi=1'' @ (if a then ''&autoplay=1&mute=1'' else []))"
proof -
  have "url_split (embed_src v a) = 
     (let s = embed_src v a in
      case (case strip_prefix ''https:'' s of
              Some r \<Rightarrow> Some (''https'', r)
            | None \<Rightarrow> map_option (Pair ''http'') (strip_prefix ''http:'' s)) of
        None \<Rightarrow> None
      | Some (scheme, r) \<Rightarrow>
          (let r' = dropWhile is_slash r;
               host = takeWhile (\<lambda>c. \<not> authority_end c) r';
               rest = dropWhile (\<lambda>c. \<not> authority_end c) r'
           in if plain_host host then Some (scheme, host, rest) else None))"
    by (simp add: url_split_def url_input_embed_src[OF assms])
  also have "\<dots> = Some (''https'', ''www.youtube.com'',
          ''/embed/'' @ v @ ''?rel=0&enablejsapi=1'' @ (if a then ''&autoplay=1&mute=1'' else []))"
    by (simp add: embed_src_def is_slash_def authority_end_def plain_host_youtube)
  finally show ?thesis .
qed

lemma split_on_nonempty [simp]: "split_on sep s \<noteq> []"
  by (induction s) (auto split: list.splits)

lemma split_on_no_sep: "(\<And>c. c \<in> set s \<Longrightarrow> \<not> sep c) \<Longrightarrow> split_on sep s = [s]"
  by (induction s) auto

lemma set_split_on:
  "seg \<in> set (split_on sep s) \<Longrightarrow> set seg \<subseteq> set s \<and> (\<forall>c\<in>set seg. \<not> sep c)"
proof (induction s arbitrary: seg)
  case Nil
  then show ?case by simp
next
  case (Cons c cs)
  show ?case
  proof (cases "sep c")
    case True
    with Cons show ?thesis by auto
  next
    case False
    obtain x xs where sp: "split_on sep cs = x # xs"
      by (cases "split_on sep cs") auto
    with False Cons.prems have "seg = c # x \<or> seg \<in> set xs" by simp
    then show ?thesis
    proof
      assume "seg = c # x"
      moreover have "set x \<subseteq> set cs \<and> (\<forall>c\<in>set x. \<not> sep c)"
        by (rule Cons.IH) (simp add: sp)
      ultimately show ?thesis using False by auto
    next
      assume "seg \<in> set xs"
      then have "set seg \<subseteq> set cs \<and> (\<forall>c\<in>set seg. \<not> sep c)"
        by (intro Cons.IH) (simp add: sp)
      then show ?thesis by auto
    qed
  qed
qed

lemma pop_split_str:
  "pop (split_str sep s) = Some seg \<Longrightarrow> set seg \<subseteq> set s \<and> sep \<notin> set seg"
proof -
  assume "pop (split_str sep s) = Some seg"
  then have "seg \<in> set (split_on (\<lambda>c. c = sep) s)"
    by (auto simp: pop_def split_str_def split: if_splits)
  from set_split_on[OF this] show ?thesis by auto
qed

lemma hex_digits_verbatim: "list_all (\<lambda>n. path_verbatim (hex_digit n)) [0..<16]"
  by code_simp

lemma hex_digit_verbatim: "n < 16 \<Longrightarrow> path_verbatim (hex_digit n)"
  using hex_digits_verbatim unfolding list_all_iff by simp

lemma pct_byte_verbatim: "b < 256 \<Longrightarrow> c \<in> set (pct_byte b) \<Longrightarrow> path_verbatim c"
proof -
  assume b: "b < 256" and c: "c \<in> set (pct_byte b)"
  have "b div 16 < 16" "b mod 16 < 16" using b by auto
  then have "path_verbatim (hex_digit (b div 16))" "path_verbatim (hex_digit (b mod 16))"
    by (simp_all add: hex_digit_verbatim)
  moreover have "path_verbatim CHR ''%''"
    by (simp add: path_verbatim_def path_set_def query_set_def c0_control_set_def is_slash_def)
  ultimately show ?thesis using c by (auto simp: pct_byte_def)
qed

lemma of_char_less_256: "(of_char c :: nat) < 256"
proof -
  have "(of_char c :: nat) mod 256 = of_char c" by (rule of_char_mod_256)
  then show ?thesis by (metis mod_less_divisor zero_less_numeral)
qed

lemma utf8_bytes_small:
  assumes "n < 256" "b \<in> set (utf8_bytes n)"
  shows "b < 256"
proof -
  have "n div 64 < 4" "n mod 64 < 64" using assms(1) by arith+
  moreover have "b = n \<or> b = 0xC0 + n div 64 \<or> b = 0x80 + n mod 64"
    using assms by (auto simp: utf8_bytes_def split: if_splits)
  ultimately show ?thesis using assms(1) by arith
qed

lemma utf8_pct_verbatim: "c \<in> set (utf8_pct ch) \<Longrightarrow> path_verbatim c"
proof -
  assume c: "c \<in> set (utf8_pct ch)"
  have n: "(of_char ch :: nat) < 256" by (rule of_char_less_256)
  have "\<forall>b \<in> set (utf8_bytes (of_char ch)). b < 256"
    using utf8_bytes_small[OF n] by blast
  with c show ?thesis
    by (auto simp: utf8_pct_def dest: pct_byte_verbatim)
qed

lemma pct_encode_verbatim:
  assumes "\<And>c. c \<in> set seg \<Longrightarrow> \<not> is_slash c \<and> c \<noteq> CHR ''#''"
    and "c \<in> set (pct_encode path_set seg)"
  shows "path_verbatim c"
proof -
  from assms(2) obtain ch where ch: "ch \<in> set seg" "c \<in> set (if path_set ch then utf8_pct ch else [ch])"
    by (auto simp: pct_encode_def)
  show ?thesis
  proof (cases "path_set ch")
    case True
    with ch show ?thesis by (simp add: utf8_pct_verbatim)
  next
    case False
    with ch assms(1)[OF ch(1)] show ?thesis by (simp add: path_verbatim_def)
  qed
qed

lemma pct_encode_id: "(\<And>c. c \<in> set s \<Longrightarrow> \<not> enc c) \<Longrightarrow> pct_encode enc s = s"
  by (induction s) (auto simp: pct_encode_def)

lemma path_segments_verbatim:
  assumes "\<And>seg c. seg \<in> set segs \<Longrightarrow> c \<in> set seg \<Longrightarrow> \<not> is_slash c \<and> c \<noteq> CHR ''#''"
    and "\<And>seg c. seg \<in> set stack \<Longrightarrow> c \<in> set seg \<Longrightarrow> path_verbatim c"
    and "seg \<in> set (path_segments stack segs)" "c \<in> set seg"
  shows "path_verbatim c"
  using assms
proof (induction segs arbitrary: stack)
  case Nil
  then show ?case by simp
next
  case (Cons s segs)
  let ?b = "pct_encode path_set s"
  have b: "\<And>c. c \<in> set ?b \<Longrightarrow> path_verbatim c"
    using Cons.prems(1)[of s] by (auto intro: pct_encode_verbatim)
  have segs: "\<And>seg c. seg \<in> set segs \<Longrightarrow> c \<in> set seg \<Longrightarrow> \<not> is_slash c \<and> c \<noteq> CHR ''#''"
    using Cons.prems(1) by auto
  consider (dd) "double_dot ?b" | (sd) "\<not> double_dot ?b" "single_dot ?b"
    | (seg) "\<not> double_dot ?b" "\<not> single_dot ?b" by blast
  then show ?case
  proof cases
    case dd
    have "seg \<in> set (path_segments (butlast stack @ (if segs = [] then [[]] else [])) segs)"
      using Cons.prems(3) dd by (simp add: Let_def)
    moreover have "\<And>seg c. seg \<in> set (butlast stack @ (if segs = [] then [[]] else [])) \<Longrightarrow>
        c \<in> set seg \<Longrightarrow> path_verbatim c"
      using Cons.prems(2) by (auto dest: in_set_butlastD split: if_splits)
    ultimately show ?thesis using Cons.IH segs Cons.prems(4) by blast
  next
    case sd
    have "seg \<in> set (path_segments (stack @ (if segs = [] then [[]] else [])) segs)"
      using Cons.prems(3) sd by (simp add: Let_def)
    moreover have "\<And>seg c. seg \<in> set (stack @ (if segs = [] then [[]] else [])) \<Longrightarrow>
        c \<in> set seg \<Longrightarrow> path_verbatim c"
      using Cons.prems(2) by (auto split: if_splits)
    ultimately show ?thesis using Cons.IH segs Cons.prems(4) by blast
  next
    case seg
    have "seg \<in> set (path_segments (stack @ [?b]) segs)"
      using Cons.prems(3) seg by (simp add: Let_def)
    moreover have "\<And>seg c. seg \<in> set (stack @ [?b]) \<Longrightarrow> c \<in> set seg \<Longrightarrow> path_verbatim c"
      using Cons.prems(2) b by auto
    ultimately show ?thesis using Cons.IH segs Cons.prems(4) by blast
  qed
qed

lemma url_path_chars:
  assumes "c \<in> set (url_path rest)"
  shows "path_verbatim c \<or> c = CHR ''/''"
proof -
  define raw where "raw = takeWhile (\<lambda>c. c \<noteq> CHR ''?'' \<and> c \<noteq> CHR ''#'') rest"
  define body where "body = (case raw of [] \<Rightarrow> [] | c # cs \<Rightarrow> if is_slash c then cs else raw)"
  have raw: "\<And>c. c \<in> set raw \<Longrightarrow> c \<noteq> CHR ''#''"
    unfolding raw_def by (auto dest: set_takeWhileD)
  have body: "set body \<subseteq> set raw"
    unfolding body_def by (auto split: list.splits)
  have segs: "\<And>seg c. seg \<in> set (split_on is_slash body) \<Longrightarrow> c \<in> set seg \<Longrightarrow>
      \<not> is_slash c \<and> c \<noteq> CHR ''#''"
    using set_split_on[of _ is_slash body] raw body by blast
  from assms have "c = CHR ''/'' \<or> (\<exists>seg \<in> set (path_segments [] (split_on is_slash body)). c \<in> set seg)"
    unfolding url_path_def raw_def[symmetric] Let_def body_def[symmetric]
    by (auto split: if_splits)
  then show ?thesis
  proof
    assume "c = CHR ''/''"
    then show ?thesis by simp
  next
    assume "\<exists>seg \<in> set (path_segments [] (split_on is_slash body)). c \<in> set seg"
    then obtain seg where s: "seg \<in> set (path_segments [] (split_on is_slash body))" "c \<in> set seg"
      by auto
    have "path_verbatim c"
    proof (rule path_segments_verbatim[OF _ _ s])
      show "\<And>seg c. seg \<in> set (split_on is_slash body) \<Longrightarrow> c \<in> set seg \<Longrightarrow>
          \<not> is_slash c \<and> c \<noteq> CHR ''#''" by (rule segs)
      show "\<And>seg c. seg \<in> set [] \<Longrightarrow> c \<in> set seg \<Longrightarrow> path_verbatim c" by simp
    qed
    then show ?thesis ..
  qed
qed

lemma last_segment_verbatim:
  assumes "last_segment src = Inr seg" "c \<in> set seg"
  shows "path_verbatim c"
proof -
  from assms(1) obtain u where u: "parse_url src = Some u"
    and seg: "pop (split_str (CHR ''/'') (pathname u)) = Some seg"
    by (auto simp: last_segment_def pop_def split_str_def split: option.splits if_splits)
  from u obtain rest where "pathname u = url_path rest"
    by (auto simp: parse_url_def)
  with pop_split_str[OF seg] assms(2) url_path_chars[of c rest] show ?thesis by auto
qed

lemma stable_no_sep:
  assumes "stable_id v" "c \<in> set v"
  shows "\<not> is_slash c" "c \<noteq> CHR ''?''" "c \<noteq> CHR ''#''" "\<not> path_set c" "c \<noteq> CHR ''/''"
proof -
  from assms have pv: "path_verbatim c" by (simp add: stable_id_def list_all_iff)
  show "\<not> is_slash c" "c \<noteq> CHR ''#''" "\<not> path_set c"
    using pv by (simp_all add: path_verbatim_def)
  show "c \<noteq> CHR ''?''" using pv by (auto simp: path_verbatim_def path_set_def)
  show "c \<noteq> CHR ''/''" using pv by (auto simp: path_verbatim_def is_slash_def)
qed

lemma not_dot_segment: "length v = 11 \<Longrightarrow> \<not> single_dot v \<and> \<not> double_dot v"
  by (auto simp: single_dot_def double_dot_def)


lemma takeWhile_embed:
  assumes "stable_id v"
  shows "takeWhile (\<lambda>c. c \<noteq> CHR ''?'' \<and> c \<noteq> CHR ''#'') (v @ CHR ''?'' # q) = v"
proof -
  have "takeWhile (\<lambda>c. c \<noteq> CHR ''?'' \<and> c \<noteq> CHR ''#'') (v @ CHR ''?'' # q) =
        v @ takeWhile (\<lambda>c. c \<noteq> CHR ''?'' \<and> c \<noteq> CHR ''#'') (CHR ''?'' # q)"
    by (rule takeWhile_append2) (use stable_no_sep[OF assms] in blast)
  then show ?thesis by simp
qed

lemma split_embed:
  assumes "stable_id v"
  shows "split_on is_slash (''embed/'' @ v) = [''embed'', v]"
proof -
  have v: "split_on is_slash v = [v]"
    by (rule split_on_no_sep) (use stable_no_sep(1)[OF assms] in blast)
  have e: "\<not> is_slash CHR ''e''" "\<not> is_slash CHR ''m''" "\<not> is_slash CHR ''b''"
    "\<not> is_slash CHR ''d''" "is_slash CHR ''/''"
    by (simp_all add: is_slash_def)
  show ?thesis by (simp add: v e)
qed


lemma pct_encode_embed_word: "pct_encode path_set ''embed'' = ''embed''"
  by code_simp

lemma path_segments_embed:
  assumes "stable_id v"
  shows "path_segments [] [''embed'', v] = [''embed'', v]"
proof -
  have enc2: "pct_encode path_set v = v"
    by (rule pct_encode_id) (use stable_no_sep(4)[OF assms] in blast)
  have d1: "\<not> single_dot ''embed''" "\<not> double_dot ''embed''"
    by (simp_all add: single_dot_def double_dot_def)
  have d2: "\<not> single_dot v" "\<not> double_dot v"
    using assms not_dot_segment[of v] by (simp_all add: stable_id_def)
  show ?thesis
    by (simp add: pct_encode_embed_word enc2 d1 d2 Let_def)
qed

lemma url_path_embed:
  assumes "stable_id v"
  shows "url_path (''/embed/'' @ v @ CHR ''?'' # q) = ''/embed/'' @ v"
proof -
  have raw: "takeWhile (\<lambda>c. c \<noteq> CHR ''?'' \<and> c \<noteq> CHR ''#'') (''/embed/'' @ v @ CHR ''?'' # q) = ''/embed/'' @ v"
    by (simp add: takeWhile_embed[OF assms])
  have body: "(case ''/embed/'' @ v of [] \<Rightarrow> [] | c # cs \<Rightarrow> if is_slash c then cs else ''/embed/'' @ v)
      = ''embed/'' @ v"
    by (simp add: is_slash_def)
  show ?thesis
    unfolding url_path_def raw Let_def body split_embed[OF assms] path_segments_embed[OF assms]
    by simp
qed


lemma pathname_embed_src:
  assumes "stable_id v"
  shows "map_option pathname (parse_url (embed_src v a)) = Some (''/embed/'' @ v)"
proof -
  have idc: "list_all id_char v" using assms by (simp add: stable_id_def)
  have "url_path (''/embed/'' @ v @ ''?rel=0&enablejsapi=1'' @ (if a then ''&autoplay=1&mute=1'' else []))
      = ''/embed/'' @ v"
    using url_path_embed[OF assms, of "''rel=0&enablejsapi=1'' @ (if a then ''&autoplay=1&mute=1'' else [])"]
    by simp
  then show ?thesis
    unfolding parse_url_def url_split_embed_src[OF idc] by simp
qed

lemma pop_embed_path:
  assumes "stable_id v"
  shows "pop (split_str (CHR ''/'') (''/embed/'' @ v)) = Some v"
proof -
  have v: "split_on (\<lambda>c. c = CHR ''/'') v = [v]"
    by (rule split_on_no_sep) (use stable_no_sep(5)[OF assms] in blast)
  have "split_on (\<lambda>c. c = CHR ''/'') (''/embed/'' @ v) = [[], ''embed'', v]"
    by (simp add: v)
  then show ?thesis by (simp add: pop_def split_str_def)
qed

lemma last_segment_embed_src:
  assumes "stable_id v"
  shows "last_segment (embed_src v a) = Inr v"
proof -
  from pathname_embed_src[OF assms, of a]
  obtain u where u: "parse_url (embed_src v a) = Some u" "pathname u = ''/embed/'' @ v"
    by auto
  show ?thesis
    unfolding last_segment_def u(1) using pop_embed_path[OF assms] by (simp add: u(2))
qed


lemma rebuild_stable:
  assumes "stable_id v"
  shows "rebuild (embed_src v a1) a2 = Inr (Some (VideoWrapper (embed_src v a2)))"
proof -
  have "video_id_match (''https://youtube.com/watch?v='' @ v @ []) = Some v"
    using assms by (intro watch_url_match) (simp_all add: stable_id_def)
  then have "video_id_match (''https://youtube.com/watch?v='' @ v) = Some v"
    by (simp del: video_id_match.simps)
  then show ?thesis
    unfolding rebuild_def last_segment_embed_src[OF assms] createYouTubeEmbed_def
    by (simp del: video_id_match.simps)
qed


lemma watch_prefix_all:
  "list_all (\<lambda>c. \<not> id_char c \<or> path_verbatim c) ''https://youtube.com/watch?v=''"
  by code_simp

lemma watch_prefix_verbatim:
  "c \<in> set ''https://youtube.com/watch?v='' \<Longrightarrow> id_char c \<Longrightarrow> path_verbatim c"
  using watch_prefix_all unfolding list_all_iff by blast

lemma undefined_all: "list_all path_verbatim ''undefined''"
  by code_simp

lemma rebuild_Some:
  assumes "rebuild src a = Inr (Some m)"
  shows "\<exists>v. m = VideoWrapper (embed_src v a) \<and> stable_id v"
proof -
  from assms obtain seg where seg: "last_segment src = Inr seg"
    and m: "createYouTubeEmbed (''https://youtube.com/watch?v='' @ seg) a = Some m"
    by (auto simp: rebuild_def split: sum.splits)
  from m obtain v where v: "video_id_match (''https://youtube.com/watch?v='' @ seg) = Some v"
    and mv: "m = VideoWrapper (embed_src v a)"
    by (auto simp: createYouTubeEmbed_def simp del: video_id_match.simps split: option.splits)
  from video_id_match_Some[OF v]
  have l: "length v = 11" and idc: "list_all id_char v"
    and sub: "set v \<subseteq> set (''https://youtube.com/watch?v='' @ seg)" by blast+
  have "path_verbatim c" if c: "c \<in> set v" for c
  proof -
    from c sub have "c \<in> set ''https://youtube.com/watch?v='' \<or> c \<in> set seg"
      unfolding set_append by blast
    moreover have "id_char c" using idc c by (simp add: list_all_iff)
    ultimately show ?thesis
      using watch_prefix_verbatim last_segment_verbatim[OF seg] by blast
  qed
  then have "stable_id v" using l idc by (simp add: stable_id_def list_all_iff)
  with mv show ?thesis by blast
qed

lemma rebuild_autoplay_indep:
  "rebuild src a = Inl e \<Longrightarrow> rebuild src a' = Inl e"
  "rebuild src a = Inr None \<Longrightarrow> rebuild src a' = Inr None"
  by (auto simp: rebuild_def createYouTubeEmbed_def simp del: video_id_match.simps
      split: sum.splits option.splits)

section \<open>Properties of the image carousel\<close>

subsection \<open>Video playback\<close>

text \<open>
  Pausing touches nothing but the embeds; pausing what has been paused changes nothing,
  and pausing takes back the start of the active slide.
\<close>

lemma pause_slide_fields:
  "pause_slide s = Inr s' \<Longrightarrow> active s' = active s \<and> video_slide s' = video_slide s"
  by (auto simp: pause_slide_def split: option.splits media.splits sum.splits)

lemma pause_all_imp:
  "pause_all ss = Inr ss' \<Longrightarrow> list_all2 (\<lambda>s s'. pause_slide s = Inr s') ss ss'"
proof (induction ss arbitrary: ss')
  case Nil
  then show ?case by simp
next
  case (Cons s ss)
  from Cons.prems obtain a ps where "pause_slide s = Inr a" "pause_all ss = Inr ps" "ss' = a # ps"
    by (auto split: sum.splits)
  with Cons.IH show ?case by simp
qed

lemma pause_all_from:
  "list_all2 (\<lambda>s s'. pause_slide s = Inr s') ss ss' \<Longrightarrow> pause_all ss = Inr ss'"
  by (induction ss ss' rule: list_all2_induct) auto

lemma pause_all_list_all2:
  "pause_all ss = Inr ss' \<longleftrightarrow> list_all2 (\<lambda>s s'. pause_slide s = Inr s') ss ss'"
  using pause_all_imp pause_all_from by blast

lemma pause_slide_idem:
  assumes "pause_slide s = Inr s'"
  shows "pause_slide s' = Inr s'"
proof (cases "media s")
  case None
  with assms show ?thesis by (auto simp: pause_slide_def)
next
  case (Some m)
  show ?thesis
  proof (cases m)
    case (Picture a b c)
    with Some assms show ?thesis by (auto simp: pause_slide_def)
  next
    case (VideoWrapper src)
    show ?thesis
    proof (cases "rebuild src False")
      case (Inl e)
      with Some VideoWrapper assms show ?thesis by (simp add: pause_slide_def)
    next
      case (Inr r)
      show ?thesis
      proof (cases r)
        case None
        with Inr Some VideoWrapper assms show ?thesis by (simp add: pause_slide_def)
      next
        case (Some m')
        with Inr obtain v where v: "m' = VideoWrapper (embed_src v False)" "stable_id v"
          using rebuild_Some by blast
        have s': "s' = s\<lparr>media := Some (VideoWrapper (embed_src v False))\<rparr>"
          using assms \<open>media s = Some m\<close> VideoWrapper Inr Some v(1) by (simp add: pause_slide_def)
        show ?thesis
          by (simp add: s' pause_slide_def rebuild_stable[OF v(2)])
      qed
    qed
  qed
qed

lemma pause_all_idem: "pause_all ss = Inr ps \<Longrightarrow> pause_all ps = Inr ps"
  unfolding pause_all_list_all2
  by (induction ss ps rule: list_all2_induct) (auto intro: pause_slide_idem)

lemma pause_all_fields:
  "pause_all ss = Inr ps \<Longrightarrow> length ps = length ss \<and> map active ps = map active ss \<and>
     map video_slide ps = map video_slide ss"
  unfolding pause_all_list_all2
  by (induction ss ps rule: list_all2_induct) (auto dest: pause_slide_fields)

lemma map_active_update_media:
  "map active (ps[k := (ps ! k)\<lparr>media := m\<rparr>]) = map active ps"
  by (cases "k < length ps") (auto simp: list_eq_iff_nth_eq nth_list_update)

lemma start_active_fields:
  "start_active ps n = Inr ss \<Longrightarrow> length ss = length ps \<and> map active ss = map active ps"
  by (auto simp: start_active_def map_active_update_media
      split: if_splits option.splits media.splits sum.splits)

lemma start_active_undone:
  assumes fixd: "pause_all ps = Inr ps" and st: "start_active ps n = Inr ss"
  shows "pause_all ss = Inr ps"
proof (cases "ss = ps")
  case True
  with fixd show ?thesis by simp
next
  case False
  define k where "k = nat n"
  from False st obtain src ae where k: "k < length ps"
    and src: "media (ps ! k) = Some (VideoWrapper src)"
    and ae: "rebuild src True = Inr (Some ae)"
    and ss: "ss = ps[k := (ps ! k)\<lparr>media := Some ae\<rparr>]"
    unfolding start_active_def k_def
    by (auto split: if_splits option.splits media.splits sum.splits)
  have all: "list_all2 (\<lambda>s s'. pause_slide s = Inr s') ps ps"
    using fixd by (simp add: pause_all_list_all2)
  then have pk: "pause_slide (ps ! k) = Inr (ps ! k)"
    using k by (simp add: list_all2_conv_all_nth)
  obtain m' where m': "rebuild src False = Inr (Some m')"
    using ae rebuild_autoplay_indep[of src False]
    by (cases "rebuild src False") (auto, metis not_Some_eq option.distinct(1) sum.inject(2))
  then obtain v where v: "m' = VideoWrapper (embed_src v False)" "stable_id v"
    using rebuild_Some by blast
  have "(ps ! k)\<lparr>media := Some m'\<rparr> = ps ! k"
    using pk src m' by (simp add: pause_slide_def)
  then have "media (ps ! k) = Some m'"
    by (metis slide.select_convs(3) slide.surjective slide.update_convs(3))
  with src v have srcv: "src = embed_src v False" by simp
  have aev: "ae = VideoWrapper (embed_src v True)"
    using ae rebuild_stable[OF v(2), of False True] srcv by simp
  have "pause_slide ((ps ! k)\<lparr>media := Some ae\<rparr>) = Inr ((ps ! k)\<lparr>media := Some (VideoWrapper src)\<rparr>)"
    by (simp add: pause_slide_def aev rebuild_stable[OF v(2)] srcv)
  also have "(ps ! k)\<lparr>media := Some (VideoWrapper src)\<rparr> = ps ! k"
    using src by (cases "ps ! k") auto
  finally have "pause_slide ((ps ! k)\<lparr>media := Some ae\<rparr>) = Inr (ps ! k)" .
  with all have "list_all2 (\<lambda>s s'. pause_slide s = Inr s') (ps[k := (ps ! k)\<lparr>media := Some ae\<rparr>]) (ps[k := ps ! k])"
    by (rule list_all2_update_cong)
  then show ?thesis by (simp add: pause_all_list_all2 ss)
qed

lemma handleVideoPlayback_idem:
  assumes "handleVideoPlayback ss n = Inr ss1"
  shows "handleVideoPlayback ss1 n = Inr ss1"
proof -
  from assms obtain ps where ps: "pause_all ss = Inr ps" and st: "start_active ps n = Inr ss1"
    by (auto simp: handleVideoPlayback_def split: sum.splits)
  have "pause_all ss1 = Inr ps"
    using pause_all_idem[OF ps] st by (rule start_active_undone)
  with st show ?thesis by (simp add: handleVideoPlayback_def)
qed

lemma handleVideoPlayback_fields:
  "handleVideoPlayback ss n = Inr ss1 \<Longrightarrow> length ss1 = length ss \<and> map active ss1 = map active ss"
  by (auto simp: handleVideoPlayback_def split: sum.splits
      dest!: pause_all_fields start_active_fields)

subsection \<open>The transition\<close>

lemma updateIndicators_nth:
  "length (updateIndicators inds n) = length inds"
  "i < length inds \<Longrightarrow> updateIndicators inds n ! i =
     (inds ! i)\<lparr>ind_active := (int i = n), ind_selected := (int i = n)\<rparr>"
  by (simp_all add: updateIndicators_def nth_enumerate_eq)

lemma updateThumbnails_nth:
  "length (updateThumbnails ths n) = length ths"
  "i < length ths \<Longrightarrow> updateThumbnails ths n ! i =
     (ths ! i)\<lparr>th_active := (int i = n), th_selected := (int i = n)\<rparr>"
  by (simp_all add: updateThumbnails_def nth_enumerate_eq)

lemma updateIndicators_idem:
  "updateIndicators (updateIndicators inds n) n = updateIndicators inds n"
  by (rule nth_equalityI) (simp_all add: updateIndicators_nth)

lemma updateThumbnails_idem:
  "updateThumbnails (updateThumbnails ths n) n = updateThumbnails ths n"
  by (rule nth_equalityI) (simp_all add: updateThumbnails_nth)

text \<open>The slides after the two class changes of the transition.\<close>

lemma activated_nth:
  assumes "k < length ss" "i < length ss"
  shows "active ((map (\<lambda>s. s\<lparr>active := False\<rparr>) ss)
            [k := (map (\<lambda>s. s\<lparr>active := False\<rparr>) ss ! k)\<lparr>active := True\<rparr>] ! i) = (i = k)"
  using assms by (simp add: nth_list_update)

lemma reactivate_same:
  assumes k: "k < length ss" and act: "\<And>i. i < length ss \<Longrightarrow> active (ss ! i) = (i = k)"
  shows "(map (\<lambda>s. s\<lparr>active := False\<rparr>) ss)
            [k := (map (\<lambda>s. s\<lparr>active := False\<rparr>) ss ! k)\<lparr>active := True\<rparr>] = ss"
proof (rule nth_equalityI)
  show "length ((map (\<lambda>s. s\<lparr>active := False\<rparr>) ss)
            [k := (map (\<lambda>s. s\<lparr>active := False\<rparr>) ss ! k)\<lparr>active := True\<rparr>]) = length ss"
    by simp
next
  fix i
  assume "i < length ((map (\<lambda>s. s\<lparr>active := False\<rparr>) ss)
            [k := (map (\<lambda>s. s\<lparr>active := False\<rparr>) ss ! k)\<lparr>active := True\<rparr>])"
  then have i: "i < length ss" by simp
  show "(map (\<lambda>s. s\<lparr>active := False\<rparr>) ss)
            [k := (map (\<lambda>s. s\<lparr>active := False\<rparr>) ss ! k)\<lparr>active := True\<rparr>] ! i = ss ! i"
    using i k act[OF i] act[OF k] by (cases "ss ! i") (auto simp: nth_list_update)
qed

lemma filter_eq_index: "k < n \<Longrightarrow> filter (\<lambda>i. i = k) [0..<n] = [k]"
  by (induction n) (auto simp: less_Suc_eq)

lemma active_indices_single:
  assumes "k < length ss" "\<And>i. i < length ss \<Longrightarrow> active (ss ! i) = (i = k)"
  shows "active_indices ss = [k]"
proof -
  have "filter (\<lambda>i. active (ss ! i)) [0..<length ss] = filter (\<lambda>i. i = k) [0..<length ss]"
    by (rule filter_cong) (simp_all add: assms(2))
  then show ?thesis by (simp add: active_indices_def filter_eq_index[OF assms(1)])
qed

lemma wrap_index_range:
  "0 < n \<Longrightarrow> 0 \<le> wrap_index n t \<and> wrap_index n t < n"
  by (simp add: wrap_index_def)

text \<open>What a successful transition leaves.\<close>

lemma scrollToSlide_Inr:
  assumes "scrollToSlide block t = Inr block'"
  defines "k \<equiv> wrap_index (int (length (slides block))) t"
  shows "0 \<le> k" "k < int (length (slides block))"
    "handleVideoPlayback
       ((map (\<lambda>s. s\<lparr>active := False\<rparr>) (slides block))
          [nat k := (map (\<lambda>s. s\<lparr>active := False\<rparr>) (slides block) ! nat k)\<lparr>active := True\<rparr>]) k
       = Inr (slides block')"
    "block' = block\<lparr>slides := slides block',
                    indicators := updateIndicators (indicators block) k,
                    thumbnails := updateThumbnails (thumbnails block) k,
                    currentSlide := Some k\<rparr>"
  using assms(1) unfolding k_def scrollToSlide_def Let_def
  by (auto split: if_splits sum.splits)

lemma scrollToSlide_active:
  assumes "scrollToSlide block t = Inr block'" "i < length (slides block)"
  shows "length (slides block') = length (slides block)"
    "active (slides block' ! i) = (int i = wrap_index (int (length (slides block))) t)"
proof -
  let ?k = "wrap_index (int (length (slides block))) t"
  let ?A = "(map (\<lambda>s. s\<lparr>active := False\<rparr>) (slides block))
          [nat ?k := (map (\<lambda>s. s\<lparr>active := False\<rparr>) (slides block) ! nat ?k)\<lparr>active := True\<rparr>]"
  note r = scrollToSlide_Inr[OF assms(1)]
  from handleVideoPlayback_fields[OF r(3)]
  have len: "length (slides block') = length ?A" and act: "map active (slides block') = map active ?A"
    by simp_all
  show "length (slides block') = length (slides block)" using len by simp
  have k: "nat ?k < length (slides block)" using r(1,2) by simp
  have "active (slides block' ! i) = map active (slides block') ! i"
    using assms(2) len by simp
  also have "\<dots> = active (?A ! i)" using act assms(2) by simp
  also have "\<dots> = (i = nat ?k)" using k assms(2) by (rule activated_nth)
  also have "\<dots> = (int i = ?k)" using r(1) by auto
  finally show "active (slides block' ! i) = (int i = ?k)" .
qed


subsection \<open>Transitions that return\<close>

lemma rebuild_Inl: "rebuild src a = Inl e \<Longrightarrow> parse_url src = None"
  by (auto simp: rebuild_def last_segment_def split: option.splits sum.splits)

lemma embed_src_parses: "stable_id v \<Longrightarrow> parse_url (embed_src v a) \<noteq> None"
  using pathname_embed_src[of v a] by auto

lemma rebuild_parses:
  assumes "rebuild src a = Inr (Some m)"
  shows "\<exists>src'. m = VideoWrapper src' \<and> parse_url src' \<noteq> None"
  using rebuild_Some[OF assms] embed_src_parses by blast

lemma pause_slide_ok:
  assumes "embed_parses s"
  shows "\<exists>s'. pause_slide s = Inr s' \<and> embed_parses s'"
proof (cases "media s")
  case None
  with assms show ?thesis by (simp add: pause_slide_def)
next
  case (Some m)
  show ?thesis
  proof (cases m)
    case (Picture a b c)
    with Some assms show ?thesis by (simp add: pause_slide_def)
  next
    case (VideoWrapper src)
    with Some assms have p: "parse_url src \<noteq> None" by (simp add: embed_parses_def)
    show ?thesis
    proof (cases "rebuild src False")
      case (Inl e)
      from rebuild_Inl[OF Inl] p show ?thesis by simp
    next
      case (Inr r)
      show ?thesis
      proof (cases r)
        case None
        with Inr Some VideoWrapper assms show ?thesis by (simp add: pause_slide_def)
      next
        case (Some m')
        with Inr rebuild_parses obtain src' where "m' = VideoWrapper src'" "parse_url src' \<noteq> None"
          by blast
        with Inr Some \<open>media s = Some m\<close> VideoWrapper show ?thesis
          by (simp add: pause_slide_def embed_parses_def)
      qed
    qed
  qed
qed

lemma pause_all_ok:
  "list_all embed_parses ss \<Longrightarrow> \<exists>ps. pause_all ss = Inr ps \<and> list_all embed_parses ps"
proof (induction ss)
  case Nil
  show ?case by simp
next
  case (Cons s ss)
  then obtain s' ps where "pause_slide s = Inr s'" "embed_parses s'"
    "pause_all ss = Inr ps" "list_all embed_parses ps"
    using pause_slide_ok[of s] by auto
  then show ?case by simp
qed

lemma start_active_ok:
  assumes "list_all embed_parses ps"
  shows "\<exists>ss. start_active ps n = Inr ss \<and> list_all embed_parses ss"
proof (cases "0 \<le> n \<and> n < int (length ps) \<and> video_slide (ps ! nat n)")
  case False
  with assms show ?thesis by (auto simp: start_active_def)
next
  case True
  then have k: "nat n < length ps" by auto
  then have pk: "embed_parses (ps ! nat n)" using assms by (simp add: list_all_length)
  show ?thesis
  proof (cases "media (ps ! nat n)")
    case None
    with True assms show ?thesis by (simp add: start_active_def)
  next
    case (Some m)
    show ?thesis
    proof (cases m)
      case (Picture a b c)
      with Some True assms show ?thesis by (simp add: start_active_def)
    next
      case (VideoWrapper src)
      with Some pk have p: "parse_url src \<noteq> None" by (simp add: embed_parses_def)
      show ?thesis
      proof (cases "rebuild src True")
        case (Inl e)
        from rebuild_Inl[OF Inl] p show ?thesis by simp
      next
        case (Inr r)
        show ?thesis
        proof (cases r)
          case None
          with Inr Some VideoWrapper True assms show ?thesis by (simp add: start_active_def)
        next
          case (Some m')
          with Inr rebuild_parses obtain src' where m': "m' = VideoWrapper src'" "parse_url src' \<noteq> None"
            by blast
          have st: "start_active ps n = Inr (ps[nat n := (ps ! nat n)\<lparr>media := Some m'\<rparr>])"
            using True \<open>media (ps ! nat n) = Some m\<close> VideoWrapper Inr Some
            by (simp add: start_active_def)
          have "embed_parses ((ps ! nat n)\<lparr>media := Some m'\<rparr>)"
            using m' by (simp add: embed_parses_def)
          then have "list_all embed_parses (ps[nat n := (ps ! nat n)\<lparr>media := Some m'\<rparr>])"
            using assms by (auto simp: list_all_iff dest!: set_update_subset_insert[THEN subsetD])
          with st show ?thesis by simp
        qed
      qed
    qed
  qed
qed

lemma handleVideoPlayback_ok:
  assumes "list_all embed_parses ss"
  shows "\<exists>ss'. handleVideoPlayback ss n = Inr ss' \<and> list_all embed_parses ss'"
proof -
  from pause_all_ok[OF assms] obtain ps where "pause_all ss = Inr ps" "list_all embed_parses ps"
    by blast
  with start_active_ok[of ps n] show ?thesis by (auto simp: handleVideoPlayback_def)
qed

lemma scrollToSlide_ok:
  assumes "slides block \<noteq> []" "list_all embed_parses (slides block)"
  shows "\<exists>block'. scrollToSlide block t = Inr block' \<and> list_all embed_parses (slides block')"
proof -
  let ?k = "wrap_index (int (length (slides block))) t"
  let ?c = "map (\<lambda>s. s\<lparr>active := False\<rparr>) (slides block)"
  have r: "0 \<le> ?k \<and> ?k < int (length (slides block))"
    using assms(1) by (intro wrap_index_range) simp
  have c: "list_all embed_parses ?c"
    using assms(2) by (simp add: list_all_iff embed_parses_def)
  have k: "nat ?k < length (slides block)" using r by (simp add: nat_less_iff)
  then have "embed_parses (slides block ! nat ?k)"
    using assms(2) by (simp add: list_all_length)
  then have "embed_parses ((?c ! nat ?k)\<lparr>active := True\<rparr>)"
    using k by (simp add: embed_parses_def)
  with c have "list_all embed_parses (?c[nat ?k := (?c ! nat ?k)\<lparr>active := True\<rparr>])"
    by (auto simp: list_all_iff dest!: set_update_subset_insert[THEN subsetD])
  from handleVideoPlayback_ok[OF this, of ?k] obtain ss where
    "handleVideoPlayback (?c[nat ?k := (?c ! nat ?k)\<lparr>active := True\<rparr>]) ?k = Inr ss"
    "list_all embed_parses ss" by blast
  with r show ?thesis by (simp add: scrollToSlide_def Let_def)
qed

lemma wrap_is_modular:
  assumes "0 < n" "- 1 \<le> t" "t \<le> n"
  shows "wrap_index n t = modular_index t n"
proof -
  consider "t = - 1" | "t = n" | "0 \<le> t" "t < n" using assms by linarith
  then show ?thesis
  proof cases
    case 1
    then show ?thesis using assms(1)
      by (cases "n = 1")
        (simp_all add: wrap_index_def modular_index_def js_rem_def sgn_if zmod_minus1)
  next
    case 2
    then show ?thesis using assms(1)
      by (simp add: wrap_index_def modular_index_def js_rem_def sgn_if)
  next
    case 3
    then show ?thesis using assms(1)
      by (simp add: wrap_index_def modular_index_def js_rem_def sgn_if)
  qed
qed


subsection \<open>Decoration\<close>

lemma three_slides_decorated:
  "decorate three_slides =
   \<lparr>slides =
      [\<lparr>active = True, video_slide = False,
        media = Some (Picture ''image-a.jpg'' ''Image A'' [''2000'', ''750''])\<rparr>,
       \<lparr>active = False, video_slide = True,
        media = Some (VideoWrapper ''https://www.youtube.com/embed/XYZ12345678?rel=0&enablejsapi=1'')\<rparr>,
       \<lparr>active = False, video_slide = False,
        media = Some (Picture ''image-b.jpg'' ''Image B'' [''2000'', ''750''])\<rparr>],
    navigation = True,
    indicators =
      [\<lparr>ind_active = False, ind_selected = True, ind_target = 0\<rparr>,
       \<lparr>ind_active = False, ind_selected = False, ind_target = 1\<rparr>,
       \<lparr>ind_active = False, ind_selected = False, ind_target = 2\<rparr>],
    thumbnails =
      [\<lparr>th_active = True, th_selected = True, th_target = 0,
        th_picture = Picture ''image-a.jpg'' [] [''160'']\<rparr>,
       \<lparr>th_active = False, th_selected = False, th_target = 1,
        th_picture = Picture ''https://img.youtube.com/vi/XYZ12345678/maxresdefault.jpg'' [] [''160'']\<rparr>,
       \<lparr>th_active = False, th_selected = False, th_target = 2,
        th_picture = Picture ''image-b.jpg'' [] [''160'']\<rparr>],
    currentSlide = Some 0\<rparr>"
  by code_simp


lemma youtube_link_Some_ex:
  "youtube_link row = Some href \<Longrightarrow> \<exists>nd \<in> set row. is_youtube_anchor nd"
proof -
  assume "youtube_link row = Some href"
  then have "filter is_youtube_anchor row \<noteq> []"
    by (auto simp: youtube_link_def split: list.splits)
  then show ?thesis by (auto simp: filter_empty_conv)
qed

lemma first_img_replace_link:
  "\<exists>nd \<in> set row. is_youtube_anchor nd \<Longrightarrow>
   has_image (replace_link (Img a b # rest) row)"
proof (induction row)
  case Nil
  then show ?case by simp
next
  case (Cons nd row)
  show ?case
  proof (cases "is_youtube_anchor nd")
    case True
    then show ?thesis by (simp add: has_image_def)
  next
    case False
    with Cons have "has_image (replace_link (Img a b # rest) row)" by auto
    with False show ?thesis by (cases nd) (simp_all add: has_image_def)
  qed
qed

lemma decorate_slide_row_image:
  "has_image (snd (decorate_slide index row)) \<longleftrightarrow> row_gets_thumbnail row"
proof (cases "youtube_link row")
  case None
  then show ?thesis
    by (simp add: decorate_slide_def row_gets_thumbnail_def Let_def split: option.splits prod.splits)
next
  case (Some href)
  show ?thesis
  proof (cases "video_id_match href")
    case None
    with Some show ?thesis
      by (simp add: decorate_slide_def row_gets_thumbnail_def createYouTubeEmbed_def)
  next
    case (Some v)
    have "has_image (replace_link
        [Img (preview_src v) ''YouTube video preview'',
         Other] row)"
      using youtube_link_Some_ex[OF \<open>youtube_link row = Some href\<close>]
      by (rule first_img_replace_link)
    with Some \<open>youtube_link row = Some href\<close> show ?thesis
      by (simp add: decorate_slide_def row_gets_thumbnail_def createYouTubeEmbed_def
          createYouTubePreview_def)
  qed
qed

lemma length_thumbnails_enumerate:
  "length (filter (\<lambda>x. (case x of (index, row) \<Rightarrow>
        case first_img row of None \<Rightarrow> None
        | Some (src, alt) \<Rightarrow>
            Some \<lparr>th_active = (index = 0), th_selected = (index = 0), th_target = index,
                  th_picture = Picture src [] [''160'']\<rparr>) \<noteq> None) (enumerate n rows))
   = length (filter has_image rows)"
  by (induction rows arbitrary: n) (auto simp: has_image_def split: option.splits)

lemma length_createThumbnails:
  "length (createThumbnails rows) = length (filter has_image rows)"
  unfolding createThumbnails_def map_filter_def length_map
  by (rule length_thumbnails_enumerate)

lemma processed_rows_images:
  "length (filter has_image
      (map snd (map (\<lambda>(index, row). decorate_slide index row) (enumerate n rows))))
   = length (filter row_gets_thumbnail rows)"
  by (induction rows arbitrary: n) (simp_all add: decorate_slide_row_image)


lemma built_embed_parses:
  assumes "video_id_match u = Some v"
  shows "parse_url (embed_src v a) \<noteq> None"
proof -
  have "list_all id_char v" using video_id_match_Some[OF assms] by simp
  then show ?thesis by (simp add: parse_url_def url_split_embed_src)
qed

lemma decorate_slide_parses: "embed_parses (fst (decorate_slide index row))"
proof (cases "youtube_link row")
  case None
  then show ?thesis
    by (simp add: decorate_slide_def embed_parses_def Let_def split: option.splits prod.splits)
next
  case (Some href)
  show ?thesis
  proof (cases "video_id_match href")
    case None
    with Some show ?thesis
      by (simp add: decorate_slide_def embed_parses_def createYouTubeEmbed_def)
  next
    case (Some v)
    with \<open>youtube_link row = Some href\<close> built_embed_parses[OF Some, of False] show ?thesis
      by (simp add: decorate_slide_def embed_parses_def createYouTubeEmbed_def)
  qed
qed

lemma decorate_slides:
  "slides (decorate rows) = map fst (map (\<lambda>(index, row). decorate_slide index row) (enumerate 0 rows))"
  by (simp add: decorate_def Let_def)

lemma decorate_parses: "list_all embed_parses (slides (decorate rows))"
  unfolding decorate_slides
  by (auto simp: list_all_iff decorate_slide_parses)

lemma decorate_length: "length (slides (decorate rows)) = length rows"
  unfolding decorate_slides by simp

subsection \<open>Events\<close>

lemma scrollToSlide_keeps:
  assumes "slides b \<noteq> []" "list_all embed_parses (slides b)"
  shows "\<exists>b'. scrollToSlide b t = Inr b' \<and> list_all embed_parses (slides b') \<and>
           length (slides b') = length (slides b) \<and> currentSlide b' \<noteq> None \<and>
           navigation b' = navigation b"
proof -
  from scrollToSlide_ok[OF assms] obtain b' where b': "scrollToSlide b t = Inr b'"
    "list_all embed_parses (slides b')" by blast
  note r = scrollToSlide_Inr[OF b'(1)]
  have "length (slides b') = length (slides b)"
    using scrollToSlide_active(1)[OF b'(1), of 0] assms(1) by simp
  moreover have "currentSlide b' \<noteq> None" by (subst r(4)) simp
  moreover have "navigation b' = navigation b" by (subst r(4)) simp
  ultimately show ?thesis using b' by blast
qed

text \<open>No handler of a decorated carousel ever throws.\<close>

lemma fire_ok:
  assumes "slides b \<noteq> []" "list_all embed_parses (slides b)" "currentSlide b \<noteq> None"
  shows "\<exists>b'. fire b ev = Inr b' \<and> slides b' \<noteq> [] \<and> list_all embed_parses (slides b') \<and>
           currentSlide b' \<noteq> None \<and> length (slides b') = length (slides b)"
proof -
  have scroll: "\<exists>b'. scrollToSlide b t = Inr b' \<and> slides b' \<noteq> [] \<and>
      list_all embed_parses (slides b') \<and> currentSlide b' \<noteq> None \<and>
      length (slides b') = length (slides b)" for t
    using scrollToSlide_keeps[OF assms(1,2), of t] assms(1) by fastforce
  have stay: "\<exists>b'. Inr b = (Inr b' :: error + carousel) \<and> slides b' \<noteq> [] \<and>
      list_all embed_parses (slides b') \<and> currentSlide b' \<noteq> None \<and>
      length (slides b') = length (slides b)"
    using assms by simp
  from assms(3) obtain c where c: "currentSlide b = Some c" by auto
  show ?thesis
  proof (cases ev)
    case PrevClick
    then show ?thesis using scroll[of "c - 1"] stay c by (simp add: fire_def)
  next
    case NextClick
    then show ?thesis using scroll[of "c + 1"] stay c by (simp add: fire_def)
  next
    case (IndicatorClick k)
    then show ?thesis
      using scroll[of "int (ind_target (indicators b ! k))"] stay by (simp add: fire_def)
  next
    case (ThumbnailClick k)
    then show ?thesis
      using scroll[of "int (th_target (thumbnails b ! k))"] stay by (simp add: fire_def)
  next
    case (SlideSeen i)
    then show ?thesis using scroll[of "int i"] stay by (simp add: fire_def)
  qed
qed

lemma run_ok:
  assumes "slides b \<noteq> []" "list_all embed_parses (slides b)" "currentSlide b \<noteq> None"
  shows "\<exists>b'. run b evs = Inr b' \<and> slides b' \<noteq> [] \<and> list_all embed_parses (slides b') \<and>
           length (slides b') = length (slides b)"
  using assms
proof (induction evs arbitrary: b)
  case Nil
  then show ?case by simp
next
  case (Cons ev evs)
  from fire_ok[OF Cons.prems, of ev] obtain b1 where b1: "fire b ev = Inr b1"
    "slides b1 \<noteq> []" "list_all embed_parses (slides b1)" "currentSlide b1 \<noteq> None"
    "length (slides b1) = length (slides b)" by blast
  from Cons.IH[OF b1(2,3,4)] b1(1,5) show ?case by auto
qed

lemma decorated_run_ok:
  assumes "1 < length rows"
  shows "\<exists>b. run (decorate rows) evs = Inr b \<and> slides b \<noteq> [] \<and>
           list_all embed_parses (slides b) \<and> length (slides b) = length rows"
proof -
  have "slides (decorate rows) \<noteq> []" using assms decorate_length[of rows] by auto
  moreover have "currentSlide (decorate rows) \<noteq> None"
    using assms by (simp add: decorate_def Let_def)
  ultimately show ?thesis
    using run_ok[OF _ decorate_parses, of rows evs] decorate_length[of rows] by simp
qed

subsection \<open>Markers\<close>

text \<open>Markers whose position is the index of their slide follow the active slide.\<close>

lemma single_marker:
  assumes "k < length xs" "\<And>i. i < length xs \<Longrightarrow> P (xs ! i) = (i = k) \<and> f (xs ! i) = i"
  shows "map f (filter P xs) = [k]"
proof -
  have "filter (\<lambda>i. P (xs ! i)) [0..<length xs] = filter (\<lambda>i. i = k) [0..<length xs]"
    by (rule filter_cong) (simp_all add: assms(2))
  then have f: "filter (\<lambda>i. P (xs ! i)) [0..<length xs] = [k]"
    by (simp add: filter_eq_index[OF assms(1)])
  have "map f (filter P xs) = map f (filter P (map (\<lambda>i. xs ! i) [0..<length xs]))"
    by (simp add: map_nth)
  also have "\<dots> = map f (map (\<lambda>i. xs ! i) (filter (\<lambda>i. P (xs ! i)) [0..<length xs]))"
    by (simp add: filter_map comp_def)
  also have "\<dots> = [k]" using assms by (simp add: f)
  finally show ?thesis .
qed

lemma indicators_follow:
  assumes "scrollToSlide block t = Inr block'"
    and "map ind_target (indicators block) = [0..<length (slides block)]"
  shows "active_indicator_targets block' = active_indices (slides block')"
proof -
  let ?k = "wrap_index (int (length (slides block))) t"
  note r = scrollToSlide_Inr[OF assms(1)]
  note a = scrollToSlide_active[OF assms(1)]
  have k: "nat ?k < length (slides block)" using r(1,2) by (simp add: nat_less_iff)
  have len: "length (slides block') = length (slides block)" using a(1)[OF k] .
  have n: "length (indicators block) = length (slides block)"
    using arg_cong[OF assms(2), of length] by simp
  have tg: "ind_target (indicators block ! i) = i" if "i < length (slides block)" for i
    using arg_cong[OF assms(2), of "\<lambda>xs. xs ! i"] that n by simp
  have ind: "indicators block' = updateIndicators (indicators block) ?k"
    by (subst r(4)) simp
  have "map ind_target (filter ind_active (updateIndicators (indicators block) ?k)) = [nat ?k]"
  proof (rule single_marker)
    show "nat ?k < length (updateIndicators (indicators block) ?k)"
      using k n by (simp add: updateIndicators_nth)
  next
    fix i assume "i < length (updateIndicators (indicators block) ?k)"
    then have i: "i < length (indicators block)" by (simp add: updateIndicators_nth)
    show "ind_active (updateIndicators (indicators block) ?k ! i) = (i = nat ?k) \<and>
          ind_target (updateIndicators (indicators block) ?k ! i) = i"
      using i n tg[of i] r(1) by (auto simp: updateIndicators_nth)
  qed
  moreover have "active_indices (slides block') = [nat ?k]"
  proof (rule active_indices_single)
    show "nat ?k < length (slides block')" using k len by simp
  next
    fix i assume "i < length (slides block')"
    then have "i < length (slides block)" using len by simp
    from a(2)[OF this] show "active (slides block' ! i) = (i = nat ?k)" using r(1) by auto
  qed
  ultimately show ?thesis by (simp add: active_indicator_targets_def ind)
qed

lemma thumbnails_follow:
  assumes "scrollToSlide block t = Inr block'"
    and "map th_target (thumbnails block) = [0..<length (slides block)]"
  shows "active_thumbnail_targets block' = active_indices (slides block')"
proof -
  let ?k = "wrap_index (int (length (slides block))) t"
  note r = scrollToSlide_Inr[OF assms(1)]
  note a = scrollToSlide_active[OF assms(1)]
  have k: "nat ?k < length (slides block)" using r(1,2) by (simp add: nat_less_iff)
  have len: "length (slides block') = length (slides block)" using a(1)[OF k] .
  have n: "length (thumbnails block) = length (slides block)"
    using arg_cong[OF assms(2), of length] by simp
  have tg: "th_target (thumbnails block ! i) = i" if "i < length (slides block)" for i
    using arg_cong[OF assms(2), of "\<lambda>xs. xs ! i"] that n by simp
  have ind: "thumbnails block' = updateThumbnails (thumbnails block) ?k"
    by (subst r(4)) simp
  have "map th_target (filter th_active (updateThumbnails (thumbnails block) ?k)) = [nat ?k]"
  proof (rule single_marker)
    show "nat ?k < length (updateThumbnails (thumbnails block) ?k)"
      using k n by (simp add: updateThumbnails_nth)
  next
    fix i assume "i < length (updateThumbnails (thumbnails block) ?k)"
    then have i: "i < length (thumbnails block)" by (simp add: updateThumbnails_nth)
    show "th_active (updateThumbnails (thumbnails block) ?k ! i) = (i = nat ?k) \<and>
          th_target (updateThumbnails (thumbnails block) ?k ! i) = i"
      using i n tg[of i] r(1) by (auto simp: updateThumbnails_nth)
  qed
  moreover have "active_indices (slides block') = [nat ?k]"
  proof (rule active_indices_single)
    show "nat ?k < length (slides block')" using k len by simp
  next
    fix i assume "i < length (slides block')"
    then have "i < length (slides block)" using len by simp
    from a(2)[OF this] show "active (slides block' ! i) = (i = nat ?k)" using r(1) by auto
  qed
  ultimately show ?thesis by (simp add: active_thumbnail_targets_def ind)
qed


lemma createIndicators_targets: "map ind_target (createIndicators n) = [0..<n]"
  by (simp add: createIndicators_def comp_def)

lemma updateIndicators_targets:
  "map ind_target (updateIndicators inds k) = map ind_target inds"
  by (rule nth_equalityI) (simp_all add: updateIndicators_nth)

lemma updateThumbnails_targets:
  "map th_target (updateThumbnails ths k) = map th_target ths"
  by (rule nth_equalityI) (simp_all add: updateThumbnails_nth)

lemma createThumbnails_targets_from:
  "list_all has_image rows \<Longrightarrow>
   map th_target (List.map_filter
       (\<lambda>(index, row).
          case first_img row of
            None \<Rightarrow> None
          | Some (src, alt) \<Rightarrow>
              Some \<lparr>th_active = (index = 0), th_selected = (index = 0), th_target = index,
                    th_picture = Picture src [] [''160'']\<rparr>)
       (enumerate n rows)) = [n..<n + length rows]"
proof (induction rows arbitrary: n)
  case Nil
  show ?case by (simp add: map_filter_simps)
next
  case (Cons row rows)
  let ?F = "\<lambda>(index, row).
          case first_img row of
            None \<Rightarrow> None
          | Some (src, alt) \<Rightarrow>
              Some \<lparr>th_active = (index = 0), th_selected = (index = 0), th_target = index,
                    th_picture = Picture src [] [''160'']\<rparr>"
  from Cons.prems obtain src alt where first: "first_img row = Some (src, alt)"
    by (auto simp: has_image_def)
  have "list_all has_image rows" using Cons.prems by simp
  then have ih: "map th_target (List.map_filter ?F (enumerate (Suc n) rows)) =
      [Suc n..<Suc n + length rows]"
    by (rule Cons.IH)
  have "map th_target (List.map_filter ?F (enumerate n (row # rows))) =
      n # map th_target (List.map_filter ?F (enumerate (Suc n) rows))"
    by (simp add: map_filter_simps first)
  also have "\<dots> = n # [Suc n..<Suc n + length rows]" by (simp only: ih)
  also have "\<dots> = [n..<Suc n + length rows]"
    by (rule upt_conv_Cons[symmetric]) simp
  also have "\<dots> = [n..<n + length (row # rows)]" by simp
  finally show ?case .
qed

lemma decorate_thumbnail_targets:
  assumes "1 < length rows" "list_all row_gets_thumbnail rows"
  shows "map th_target (thumbnails (decorate rows)) = [0..<length (slides (decorate rows))]"
proof -
  let ?rows' = "map snd (map (\<lambda>(index, row). decorate_slide index row) (enumerate 0 rows))"
  have "list_all has_image ?rows'"
    using assms(2) by (auto simp: list_all_iff decorate_slide_row_image in_set_enumerate_eq)
  from createThumbnails_targets_from[OF this, of 0]
  have "map th_target (createThumbnails ?rows') = [0..<length rows]"
    by (simp add: createThumbnails_def)
  moreover have "thumbnails (decorate rows) = createThumbnails ?rows'"
    using assms(1) by (simp add: decorate_def Let_def)
  ultimately show ?thesis by (simp only: decorate_length)
qed

subsection \<open>The active slide\<close>

text \<open>
  The wrap-around of \<^verbatim>\<open>scrollToSlide\<close> is not the modular index: from the three slides,
  \<^verbatim>\<open>goToSlide(-2)\<close> activates slide 2, where the formula gives 1.
\<close>

theorem wrap_is_not_modular:
  "active_after (scrollToSlide (decorate three_slides) (- 2)) = Inr [2] \<and>
   modular_index (- 2) 3 = 1"
  by code_simp

text \<open>
  Claim C1, as the code has it. For every integer \<open>t\<close> and every carousel with at least
  one slide whose iframe sources parse (as all sources built by \<^verbatim>\<open>createYouTubeEmbed\<close>
  do), \<^verbatim>\<open>goToSlide(t)\<close> returns and leaves exactly one slide active: the last one for
  \<open>t < 0\<close>, the first one for \<open>t \<ge> length\<close>, slide \<open>t\<close> otherwise; that index is also
  stored as the current one. For \<open>-1 \<le> t \<le> length\<close> it is the modular index
  \<^verbatim>\<open>((t % length) + length) % length\<close>.
\<close>

theorem scrollToSlide_one_active:
  assumes "slides block \<noteq> []" and "list_all embed_parses (slides block)"
  shows "\<exists>block'. scrollToSlide block t = Inr block' \<and>
           active_indices (slides block') = [nat (wrap_index (int (length (slides block))) t)] \<and>
           currentSlide block' = Some (wrap_index (int (length (slides block))) t) \<and>
           (- 1 \<le> t \<and> t \<le> int (length (slides block)) \<longrightarrow>
              wrap_index (int (length (slides block))) t =
              modular_index t (int (length (slides block))))"
proof -
  let ?n = "int (length (slides block))"
  from scrollToSlide_ok[OF assms] obtain block' where b: "scrollToSlide block t = Inr block'"
    by blast
  note r = scrollToSlide_Inr[OF b]
  note a = scrollToSlide_active[OF b]
  have len: "length (slides block') = length (slides block)"
    using a(1)[of "nat (wrap_index ?n t)"] r(1,2) by simp
  have "active_indices (slides block') = [nat (wrap_index ?n t)]"
  proof (rule active_indices_single)
    show "nat (wrap_index ?n t) < length (slides block')" using r(1,2) len by simp
  next
    fix i assume "i < length (slides block')"
    then have "i < length (slides block)" using len by simp
    from a(2)[OF this] show "active (slides block' ! i) = (i = nat (wrap_index ?n t))"
      using r(1) by auto
  qed
  moreover have "currentSlide block' = Some (wrap_index ?n t)"
    by (subst r(4)) simp
  moreover have "- 1 \<le> t \<and> t \<le> ?n \<longrightarrow> wrap_index ?n t = modular_index t ?n"
    using assms(1) wrap_is_modular[of ?n t] by simp
  ultimately show ?thesis using b by blast
qed

lemma three_slides_parse: "list_all embed_parses (slides (decorate three_slides))"
  by code_simp

lemma three_slides_length: "length (slides (decorate three_slides)) = 3"
  by code_simp

theorem scrollToSlide_one_active_witness:
  "\<exists>block'. scrollToSlide (decorate three_slides) 4 = Inr block' \<and>
      active_indices (slides block') = [0] \<and> currentSlide block' = Some 0"
proof -
  have ne: "slides (decorate three_slides) \<noteq> []"
    using three_slides_length by auto
  from scrollToSlide_one_active[OF ne three_slides_parse, of 4]
  show ?thesis by (simp add: three_slides_length wrap_index_def)
qed


text \<open>
  The scenario of the three slides does not end on the video: \<^verbatim>\<open>goToSlide(4)\<close> wraps
  to slide 0 and leaves the video embed without autoplay.
\<close>

lemma scenario_back: "active_after (scrollToSlide (decorate three_slides) (- 1)) = Inr [2]"
  by code_simp

lemma scenario_overflow_active: "active_after (then_scroll (scrollToSlide (decorate three_slides) (- 1)) 4) = Inr [0]"
  by code_simp

lemma scenario_overflow_media: "media_after (then_scroll (scrollToSlide (decorate three_slides) (- 1)) 4) =
   Inr [Some (Picture ''image-a.jpg'' ''Image A'' [''2000'', ''750'']),
        Some (VideoWrapper ''https://www.youtube.com/embed/XYZ12345678?rel=0&enablejsapi=1''),
        Some (Picture ''image-b.jpg'' ''Image B'' [''2000'', ''750''])]"
  by code_simp

lemma scenario_video_media: "media_after (then_scroll (then_scroll (scrollToSlide (decorate three_slides) (- 1)) 4) 1) =
   Inr [Some (Picture ''image-a.jpg'' ''Image A'' [''2000'', ''750'']),
        Some (VideoWrapper ''https://www.youtube.com/embed/XYZ12345678?rel=0&enablejsapi=1&autoplay=1&mute=1''),
        Some (Picture ''image-b.jpg'' ''Image B'' [''2000'', ''750''])]"
  by code_simp


lemma scenario_video_active:
  "active_after (then_scroll (then_scroll (scrollToSlide (decorate three_slides) (- 1)) 4) 1) = Inr [1]"
  by code_simp

theorem scenario_overflow_goes_to_first:
  "active_after (then_scroll (scrollToSlide (decorate three_slides) (- 1)) 4) = Inr [0] \<and>
   active_after (then_scroll (scrollToSlide (decorate three_slides) (- 1)) 4) \<noteq> Inr [1] \<and>
   media_after (then_scroll (scrollToSlide (decorate three_slides) (- 1)) 4) =
     Inr [Some (Picture ''image-a.jpg'' ''Image A'' [''2000'', ''750'']),
          Some (VideoWrapper ''https://www.youtube.com/embed/XYZ12345678?rel=0&enablejsapi=1''),
          Some (Picture ''image-b.jpg'' ''Image B'' [''2000'', ''750''])]"
  using scenario_overflow_active scenario_overflow_media by simp

text \<open>
  Claim C5, as the code has it. From the three slides [Image A, Video XYZ12345678,
  Image B] with slide 0 active, \<^verbatim>\<open>goToSlide(-1)\<close> activates slide 2; \<^verbatim>\<open>goToSlide(4)\<close>
  then activates slide 0, the embed of slide 1 being the one without autoplay and slides
  0 and 2 holding pictures; \<^verbatim>\<open>goToSlide(1)\<close> after that activates slide 1 and gives it
  the autoplaying embed.
\<close>

theorem scenario_three_slides:
  "active_indices (slides (decorate three_slides)) = [0] \<and>
   active_after (scrollToSlide (decorate three_slides) (- 1)) = Inr [2] \<and>
   active_after (then_scroll (scrollToSlide (decorate three_slides) (- 1)) 4) = Inr [0] \<and>
   media_after (then_scroll (scrollToSlide (decorate three_slides) (- 1)) 4) =
     Inr [Some (Picture ''image-a.jpg'' ''Image A'' [''2000'', ''750'']),
          Some (VideoWrapper ''https://www.youtube.com/embed/XYZ12345678?rel=0&enablejsapi=1''),
          Some (Picture ''image-b.jpg'' ''Image B'' [''2000'', ''750''])] \<and>
   active_after (then_scroll (then_scroll (scrollToSlide (decorate three_slides) (- 1)) 4) 1) =
     Inr [1] \<and>
   media_after (then_scroll (then_scroll (scrollToSlide (decorate three_slides) (- 1)) 4) 1) =
     Inr [Some (Picture ''image-a.jpg'' ''Image A'' [''2000'', ''750'']),
          Some (VideoWrapper ''https://www.youtube.com/embed/XYZ12345678?rel=0&enablejsapi=1&autoplay=1&mute=1''),
          Some (Picture ''image-b.jpg'' ''Image B'' [''2000'', ''750''])]"
proof -
  have "active_indices (slides (decorate three_slides)) = [0]"
    by (simp add: three_slides_decorated active_indices_def)
  with scenario_back scenario_overflow_active scenario_overflow_media scenario_video_active
    scenario_video_media
  show ?thesis by simp
qed

text \<open>
  Claim C6. When \<^verbatim>\<open>goToSlide\<close> has returned, a second call with any index that wraps
  to the same slide returns the very same block: slides with their classes and embeds
  (sources and autoplay), indicators, thumbnails and the stored index.
\<close>

theorem scrollToSlide_idempotent:
  assumes "scrollToSlide block i = Inr block'"
    and "wrap_index (int (length (slides block))) j = wrap_index (int (length (slides block))) i"
  shows "scrollToSlide block' j = Inr block'"
proof -
  let ?k = "wrap_index (int (length (slides block))) i"
  note r = scrollToSlide_Inr[OF assms(1)]
  note a = scrollToSlide_active[OF assms(1)]
  have len: "length (slides block') = length (slides block)" using r(2) a(1)[of "nat ?k"] r(1) by simp
  have kj: "wrap_index (int (length (slides block'))) j = ?k" using len assms(2) by simp
  have k: "nat ?k < length (slides block')" using r(1,2) len by simp
  have same: "(map (\<lambda>s. s\<lparr>active := False\<rparr>) (slides block'))
          [nat ?k := (map (\<lambda>s. s\<lparr>active := False\<rparr>) (slides block') ! nat ?k)\<lparr>active := True\<rparr>]
        = slides block'"
  proof (rule reactivate_same[OF k])
    fix m assume "m < length (slides block')"
    then have "m < length (slides block)" using len by simp
    from a(2)[OF this] show "active (slides block' ! m) = (m = nat ?k)" using r(1) by auto
  qed
  have hv: "handleVideoPlayback (slides block') ?k = Inr (slides block')"
    using r(3) by (rule handleVideoPlayback_idem)
  have ind: "updateIndicators (indicators block') ?k = indicators block'"
    by (subst (1 2) r(4)) (simp add: updateIndicators_idem)
  have th: "updateThumbnails (thumbnails block') ?k = thumbnails block'"
    by (subst (1 2) r(4)) (simp add: updateThumbnails_idem)
  have cs: "currentSlide block' = Some ?k"
    by (subst r(4)) simp
  have "scrollToSlide block' j =
      Inr (block'\<lparr>slides := slides block', indicators := indicators block',
                  thumbnails := thumbnails block', currentSlide := Some ?k\<rparr>)"
    unfolding scrollToSlide_def Let_def kj same using r(1,2) len
    by (simp add: hv ind th)
  also have "block'\<lparr>slides := slides block', indicators := indicators block',
                  thumbnails := thumbnails block', currentSlide := Some ?k\<rparr> = block'"
    using cs by simp
  finally show ?thesis .
qed

lemma three_slides_at_1:
  "scrollToSlide (decorate three_slides) 1 =
   Inr \<lparr>slides =
      [\<lparr>active = False, video_slide = False,
        media = Some (Picture ''image-a.jpg'' ''Image A'' [''2000'', ''750''])\<rparr>,
       \<lparr>active = True, video_slide = True,
        media = Some (VideoWrapper ''https://www.youtube.com/embed/XYZ12345678?rel=0&enablejsapi=1&autoplay=1&mute=1'')\<rparr>,
       \<lparr>active = False, video_slide = False,
        media = Some (Picture ''image-b.jpg'' ''Image B'' [''2000'', ''750''])\<rparr>],
    navigation = True,
    indicators =
      [\<lparr>ind_active = False, ind_selected = False, ind_target = 0\<rparr>,
       \<lparr>ind_active = True, ind_selected = True, ind_target = 1\<rparr>,
       \<lparr>ind_active = False, ind_selected = False, ind_target = 2\<rparr>],
    thumbnails =
      [\<lparr>th_active = False, th_selected = False, th_target = 0,
        th_picture = Picture ''image-a.jpg'' [] [''160'']\<rparr>,
       \<lparr>th_active = True, th_selected = True, th_target = 1,
        th_picture = Picture ''https://img.youtube.com/vi/XYZ12345678/maxresdefault.jpg'' [] [''160'']\<rparr>,
       \<lparr>th_active = False, th_selected = False, th_target = 2,
        th_picture = Picture ''image-b.jpg'' [] [''160'']\<rparr>],
    currentSlide = Some 1\<rparr>"
  by code_simp

theorem scrollToSlide_idempotent_witness:
  "then_scroll (scrollToSlide (decorate three_slides) 1) 1 = scrollToSlide (decorate three_slides) 1 \<and>
   scrollToSlide (decorate three_slides) 1 \<noteq> Inl TypeError"
  using scrollToSlide_idempotent[OF three_slides_at_1, of 1]
  by (simp add: then_scroll_def three_slides_at_1)

subsection \<open>Indicators and thumbnails\<close>

text \<open>
  A thumbnail is made only for a row that has an image when the thumbnails are made: a
  row without one, and a row whose only link has no video id, leave one thumbnail for two
  slides.
\<close>

theorem thumbnails_fewer_than_slides:
  "length (slides (decorate [[Img ''image-a.jpg'' ''Image A''], [Other]])) = 2 \<and>
   length (thumbnails (decorate [[Img ''image-a.jpg'' ''Image A''], [Other]])) = 1 \<and>
   length (slides (decorate [[Img ''image-a.jpg'' ''Image A''],
      [Anchor ''https://www.youtube.com/watch?v=short''
         ''https://www.youtube.com/watch?v=short'']])) = 2 \<and>
   length (thumbnails (decorate [[Img ''image-a.jpg'' ''Image A''],
      [Anchor ''https://www.youtube.com/watch?v=short''
         ''https://www.youtube.com/watch?v=short'']])) = 1"
  by code_simp

text \<open>
  Claim C3, as the code has it. For more than one row there are as many slides and as
  many indicators as rows, whatever the rows hold. There is one thumbnail for each row
  that holds an image or whose first YouTube anchor has a \<^verbatim>\<open>link.href\<close> in which the
  pattern finds a video id, so at most as many thumbnails as rows. The first YouTube
  anchor of a row is the first of its anchors whose \<^verbatim>\<open>href\<close> attribute contains
  \<^verbatim>\<open>youtube.com\<close> or \<^verbatim>\<open>youtu.be\<close>; no other anchor of the row is looked at.
\<close>

theorem control_counts:
  assumes "1 < length rows"
  shows "length (slides (decorate rows)) = length rows \<and>
         length (indicators (decorate rows)) = length rows \<and>
         length (thumbnails (decorate rows)) = length (filter row_gets_thumbnail rows) \<and>
         length (thumbnails (decorate rows)) \<le> length rows"
proof -
  have "thumbnails (decorate rows) =
      createThumbnails (map snd (map (\<lambda>(index, row). decorate_slide index row) (enumerate 0 rows)))"
    using assms by (simp add: decorate_def Let_def)
  then have th: "length (thumbnails (decorate rows)) = length (filter row_gets_thumbnail rows)"
    by (simp only: length_createThumbnails processed_rows_images)
  have "length (filter row_gets_thumbnail rows) \<le> length rows" by (rule length_filter_le)
  with th show ?thesis
    using assms by (simp add: decorate_def Let_def createIndicators_def)
qed

lemma two_rows_one_image: "filter row_gets_thumbnail [[Img ''image-a.jpg'' ''Image A''], [Other]] =
    [[Img ''image-a.jpg'' ''Image A'']]"
  by code_simp

theorem control_counts_witness:
  "length (indicators (decorate [[Img ''image-a.jpg'' ''Image A''], [Other]])) = 2 \<and>
   length (thumbnails (decorate [[Img ''image-a.jpg'' ''Image A''], [Other]])) = 1"
  using control_counts[of "[[Img ''image-a.jpg'' ''Image A''], [Other]]", unfolded two_rows_one_image]
  by simp

text \<open>
  Only the first YouTube anchor of a row counts: when the pattern finds no id in it, a
  second anchor with an id brings neither embed nor thumbnail.
\<close>

lemma only_first_link_counts:
  "\<not> row_gets_thumbnail
       [Anchor ''https://youtu.be/short'' ''https://youtu.be/short'',
        Anchor ''https://youtu.be/11111111111'' ''https://youtu.be/11111111111''] \<and>
   length (thumbnails (decorate
       [[Anchor ''https://youtu.be/short'' ''https://youtu.be/short'',
         Anchor ''https://youtu.be/11111111111'' ''https://youtu.be/11111111111''],
        [Img ''image-a.jpg'' ''Image A'']])) = 1"
  by code_simp

text \<open>
  The pattern reads \<^verbatim>\<open>link.href\<close>, not the attribute. An authored \<^verbatim>\<open>href\<close> with
  spaces, in which the pattern finds no id, is serialised with \<^verbatim>\<open>%20\<close>, and there the
  pattern finds eleven code units: the row gets its thumbnail.
\<close>

lemma serialised_href_is_matched:
  "url_href ''https://youtu.be/abc def ghij'' = Some ''https://youtu.be/abc%20def%20ghij'' \<and>
   video_id_match ''https://youtu.be/abc def ghij'' = None \<and>
   row_gets_thumbnail
     [Anchor ''https://youtu.be/abc def ghij'' ''https://youtu.be/abc%20def%20ghij'']"
  by code_simp

text \<open>The source that a thumbnail reads from the preview image is serialised as well.\<close>

lemma preview_src_examples:
  "preview_src ''XYZ12345678'' = ''https://img.youtube.com/vi/XYZ12345678/maxresdefault.jpg'' \<and>
   preview_src ''abc{defghij'' = ''https://img.youtube.com/vi/abc%7Bdefghij/maxresdefault.jpg'' \<and>
   preview_src ''abc#def<ghi'' = ''https://img.youtube.com/vi/abc#def%3Cghi/maxresdefault.jpg''"
  by code_simp


text \<open>
  Claim C4 fails on the code. \<^verbatim>\<open>updateThumbnails\<close> marks the thumbnail at the
  position of the active slide, but \<^verbatim>\<open>createThumbnails\<close> made no thumbnail for a row
  without image: with the first row imageless, \<^verbatim>\<open>goToSlide(1)\<close> activates slide 1 and
  its indicator, and the thumbnail that leads to slide 2. Right after decoration, slide 0
  and thumbnail 0 are active and no indicator is.
\<close>

theorem thumbnail_marker_off_slide:
  "active_after (scrollToSlide (decorate imageless_first) 1) = Inr [1] \<and>
   indicator_targets_after (scrollToSlide (decorate imageless_first) 1) = Inr [1] \<and>
   thumbnail_targets_after (scrollToSlide (decorate imageless_first) 1) = Inr [2] \<and>
   active_indices (slides (decorate three_slides)) = [0] \<and>
   active_thumbnail_targets (decorate three_slides) = [0] \<and>
   active_indicator_targets (decorate three_slides) = []"
proof -
  have "active_after (scrollToSlide (decorate imageless_first) 1) = Inr [1] \<and>
   indicator_targets_after (scrollToSlide (decorate imageless_first) 1) = Inr [1] \<and>
   thumbnail_targets_after (scrollToSlide (decorate imageless_first) 1) = Inr [2]"
    by code_simp
  moreover have "active_indices (slides (decorate three_slides)) = [0] \<and>
   active_thumbnail_targets (decorate three_slides) = [0] \<and>
   active_indicator_targets (decorate three_slides) = []"
    by code_simp
  ultimately show ?thesis by simp
qed

subsection \<open>The rebuilt embed\<close>



text \<open>An id with a code unit that the parser percent-encodes comes back as another id.\<close>

lemma rebuild_changes_id: "createYouTubeEmbed ''https://www.youtube.com/#youtu.be/abc{defghij'' False =
     Some (VideoWrapper ''https://www.youtube.com/embed/abc{defghij?rel=0&enablejsapi=1'') \<and>
   rebuild ''https://www.youtube.com/embed/abc{defghij?rel=0&enablejsapi=1'' False =
     Inr (Some (VideoWrapper ''https://www.youtube.com/embed/abc%7Bdefgh?rel=0&enablejsapi=1''))"
  by code_simp



lemma youtube_alphabet_verbatim:
  "list_all path_verbatim
     ''ABCDEFGHIJKLMNOPQRSTUVWXYZabcdefghijklmnopqrstuvwxyz0123456789-_''"
  by code_simp





end
